theory Spec2Isabelle
  imports Complex_Main
begin

section \<open>Python values used by the notebook\<close>

text \<open>
  Exceptions of the notebook's code paths are values: a function that can raise returns
  \<open>py_error + 'a\<close>, with \<open>Inl\<close> for the exception.
\<close>

datatype py_error = ValueError | ZeroDivisionError | UnboundLocalError | RuntimeError

subsection \<open>\<open>collections.deque\<close> with a bound\<close>

text \<open>
  A bounded deque is its content, left to right, and its \<open>maxlen\<close>. The constructor
  refuses a negative bound. Both append operations insert first and then trim the
  opposite end when the content has grown past \<open>maxlen\<close>.
\<close>

record 'a deque =
  items :: "'a list"
  maxlen :: nat

definition deque_new :: "int \<Rightarrow> py_error + 'a deque" where
  "deque_new m = (if m < 0 then Inl ValueError else Inr \<lparr>items = [], maxlen = nat m\<rparr>)"

definition appendleft :: "'a \<Rightarrow> 'a deque \<Rightarrow> 'a deque" where
  "appendleft x d =
     (let xs = x # items d
      in d\<lparr>items := (if maxlen d < length xs then butlast xs else xs)\<rparr>)"

definition append_right :: "'a \<Rightarrow> 'a deque \<Rightarrow> 'a deque" where
  "append_right x d =
     (let xs = items d @ [x]
      in d\<lparr>items := (if maxlen d < length xs then tl xs else xs)\<rparr>)"

section \<open>Return Calculator\<close>

text \<open>
  \<^verbatim>\<open>
  def calculate_discounted_returns(rewards, max_steps, gamma):
      returns = deque(maxlen=max_steps)
      n_steps = len(rewards)
      for step in range(n_steps)[::-1]:
          disc_return = (returns[0] if len(returns) > 0 else 0)
          returns.appendleft(rewards[step] + gamma * disc_return)
      return returns
  \<close>
  The loop runs \<open>step\<close> from \<open>n_steps - 1\<close> down to \<open>0\<close>; \<open>returns_loop\<close> with counter
  \<open>Suc step\<close> executes the body for index \<open>step\<close> and continues below it. The arithmetic
  is kept generic: the body only adds and multiplies.
\<close>

fun returns_loop :: "'a::{zero,plus,times} list \<Rightarrow> 'a \<Rightarrow> nat \<Rightarrow> 'a deque \<Rightarrow> 'a deque" where
  "returns_loop rewards gamma 0 returns = returns"
| "returns_loop rewards gamma (Suc step) returns =
     (let disc_return = (if length (items returns) > 0 then items returns ! 0 else 0)
      in returns_loop rewards gamma step
           (appendleft (rewards ! step + gamma * disc_return) returns))"

definition calculate_discounted_returns ::
    "'a::{zero,plus,times} list \<Rightarrow> int \<Rightarrow> 'a \<Rightarrow> py_error + 'a deque" where
  "calculate_discounted_returns rewards max_steps gamma =
     (case deque_new max_steps of
        Inl e \<Rightarrow> Inl e
      | Inr returns \<Rightarrow>
          (let n_steps = length rewards
           in Inr (returns_loop rewards gamma n_steps returns)))"

text \<open>
  The sequence the backward recursion describes, written on the reward list itself:
  the return of a step is its reward plus \<open>gamma\<close> times the return of the next step,
  and the return after the final step is \<open>0\<close>.
\<close>

fun discounted :: "'a::{zero,plus,times} \<Rightarrow> 'a list \<Rightarrow> 'a list" where
  "discounted gamma [] = []"
| "discounted gamma (r # rs) =
     (r + gamma * (case discounted gamma rs of [] \<Rightarrow> 0 | y # _ \<Rightarrow> y)) # discounted gamma rs"

section \<open>Floating-point values\<close>

text \<open>
  A float is a finite number, an infinity or NaN. The operations of this section are
  the exact ones on finite values, with the exceptional cases of IEEE 754: \<open>0 / 0\<close>,
  \<open>inf - inf\<close> and \<open>0 * inf\<close> are NaN, a non-zero finite value divided by zero is an
  infinity, NaN propagates, and a comparison with NaN is false. A floating-point
  operation is the exact operation followed by rounding to the format, which the next
  subsection defines for \<open>float32\<close>. The sign of zero is not modelled.
\<close>

datatype fval = Fin real | PInf | MInf | NaN

fun fneg :: "fval \<Rightarrow> fval" where
  "fneg (Fin a) = Fin (- a)"
| "fneg PInf = MInf"
| "fneg MInf = PInf"
| "fneg NaN = NaN"

fun fadd :: "fval \<Rightarrow> fval \<Rightarrow> fval" where
  "fadd (Fin a) (Fin b) = Fin (a + b)"
| "fadd NaN _ = NaN"
| "fadd _ NaN = NaN"
| "fadd PInf MInf = NaN"
| "fadd MInf PInf = NaN"
| "fadd PInf _ = PInf"
| "fadd _ PInf = PInf"
| "fadd MInf _ = MInf"
| "fadd _ MInf = MInf"

definition fsub :: "fval \<Rightarrow> fval \<Rightarrow> fval" where
  "fsub a b = fadd a (fneg b)"

fun fmul :: "fval \<Rightarrow> fval \<Rightarrow> fval" where
  "fmul (Fin a) (Fin b) = Fin (a * b)"
| "fmul NaN _ = NaN"
| "fmul _ NaN = NaN"
| "fmul (Fin a) PInf = (if a = 0 then NaN else if 0 < a then PInf else MInf)"
| "fmul (Fin a) MInf = (if a = 0 then NaN else if 0 < a then MInf else PInf)"
| "fmul PInf (Fin b) = (if b = 0 then NaN else if 0 < b then PInf else MInf)"
| "fmul MInf (Fin b) = (if b = 0 then NaN else if 0 < b then MInf else PInf)"
| "fmul PInf PInf = PInf"
| "fmul PInf MInf = MInf"
| "fmul MInf PInf = MInf"
| "fmul MInf MInf = PInf"

fun fdiv :: "fval \<Rightarrow> fval \<Rightarrow> fval" where
  "fdiv (Fin a) (Fin b) =
     (if b \<noteq> 0 then Fin (a / b) else if a = 0 then NaN else if 0 < a then PInf else MInf)"
| "fdiv NaN _ = NaN"
| "fdiv _ NaN = NaN"
| "fdiv (Fin a) PInf = Fin 0"
| "fdiv (Fin a) MInf = Fin 0"
| "fdiv PInf (Fin b) = (if 0 \<le> b then PInf else MInf)"
| "fdiv MInf (Fin b) = (if 0 \<le> b then MInf else PInf)"
| "fdiv PInf PInf = NaN"
| "fdiv PInf MInf = NaN"
| "fdiv MInf PInf = NaN"
| "fdiv MInf MInf = NaN"

fun fsqrt :: "fval \<Rightarrow> fval" where
  "fsqrt (Fin a) = (if a < 0 then NaN else Fin (sqrt a))"
| "fsqrt PInf = PInf"
| "fsqrt MInf = NaN"
| "fsqrt NaN = NaN"

fun fge :: "fval \<Rightarrow> fval \<Rightarrow> bool" where
  "fge (Fin a) (Fin b) = (b \<le> a)"
| "fge NaN _ = False"
| "fge _ NaN = False"
| "fge PInf _ = True"
| "fge _ MInf = True"
| "fge MInf _ = False"
| "fge _ PInf = False"

fun is_finite :: "fval \<Rightarrow> bool" where
  "is_finite (Fin a) = True"
| "is_finite _ = False"

text \<open>
  A non-negative number or \<open>+inf\<close>: what a sum of squares can be.
\<close>

fun pos_or_inf :: "fval \<Rightarrow> bool" where
  "pos_or_inf (Fin a) = (0 \<le> a)"
| "pos_or_inf PInf = True"
| "pos_or_inf MInf = False"
| "pos_or_inf NaN = False"

text \<open>The number a finite float stands for.\<close>

definition the_fin :: "fval \<Rightarrow> real" where
  "the_fin v = (case v of Fin a \<Rightarrow> a | _ \<Rightarrow> 0)"

subsection \<open>Rounding to \<open>float32\<close>\<close>

text \<open>
  The finite values of \<open>float32\<close> are the numbers \<open>m * 2 ^ e\<close> with a significand
  \<open>\<bar>m\<bar> < 2 ^ 24\<close> and \<open>-149 \<le> e \<le> 104\<close>, subnormal numbers included; the largest is
  \<open>(2 ^ 24 - 1) * 2 ^ 104\<close>. Rounding is to the nearest of them, a tie going to the
  neighbour with the even significand. For the purpose of rounding the grid is
  continued by \<open>2 ^ 128\<close>: a number that rounds to it, or lies beyond it, overflows to an
  infinity.
\<close>

definition float32_values :: "real set" where
  "float32_values =
     (\<lambda>(m, e). real_of_int m * power_int 2 e) ` ({- (2 ^ 24 - 1) .. 2 ^ 24 - 1} \<times> {- 149 .. 104})"

definition float32_grid :: "real set" where
  "float32_grid = float32_values \<union> {2 ^ 128, - (2 ^ 128)}"

definition round_down :: "real \<Rightarrow> real" where
  "round_down x = Max {y \<in> float32_grid. y \<le> x}"

definition round_up :: "real \<Rightarrow> real" where
  "round_up x = Min {y \<in> float32_grid. x \<le> y}"

definition nearest :: "real \<Rightarrow> real" where
  "nearest x =
     (let lo = round_down x; hi = round_up x
      in if x - lo < hi - x then lo
         else if hi - x < x - lo then hi
         else if lo = hi then lo
         else if even \<lfloor>lo / (hi - lo)\<rfloor> then lo else hi)"

definition round32 :: "real \<Rightarrow> fval" where
  "round32 x =
     (if 2 ^ 128 \<le> x then PInf
      else if x \<le> - (2 ^ 128) then MInf
      else (let y = nearest x
            in if y = 2 ^ 128 then PInf else if y = - (2 ^ 128) then MInf else Fin y))"

fun r32 :: "fval \<Rightarrow> fval" where
  "r32 (Fin a) = round32 a"
| "r32 PInf = PInf"
| "r32 MInf = MInf"
| "r32 NaN = NaN"

definition fadd32 :: "fval \<Rightarrow> fval \<Rightarrow> fval" where
  "fadd32 a b = r32 (fadd a b)"

definition fsub32 :: "fval \<Rightarrow> fval \<Rightarrow> fval" where
  "fsub32 a b = r32 (fsub a b)"

definition fmul32 :: "fval \<Rightarrow> fval \<Rightarrow> fval" where
  "fmul32 a b = r32 (fmul a b)"

definition fdiv32 :: "fval \<Rightarrow> fval \<Rightarrow> fval" where
  "fdiv32 a b = r32 (fdiv a b)"

definition fsqrt32 :: "fval \<Rightarrow> fval" where
  "fsqrt32 a = r32 (fsqrt a)"

text \<open>
  The unit roundoff of \<open>float32\<close>, half the distance from \<open>1\<close> to the next value, and half
  the smallest subnormal number: rounding changes a number in range by at most the first
  relative to its magnitude, or by at most the second.
\<close>

definition float32_u :: real where
  "float32_u = 1 / 2 ^ 24"

definition float32_eta :: real where
  "float32_eta = 1 / 2 ^ 150"

subsection \<open>One-dimensional tensors and their reductions\<close>

text \<open>
  \<open>torch.tensor(xs, dtype=torch.float32)\<close> rounds every Python float of the sequence to
  \<open>float32\<close>, and the tensor operations work in \<open>float32\<close>: every operation rounds. The
  sum adds from left to right; \<open>mean()\<close> is the sum divided by the number of elements;
  \<open>std()\<close> takes the squared deviations from the mean, sums them and divides by
  \<open>max(0, N - 1)\<close> (Bessel's correction) before the square root. The library does
  not document the order in which its kernels add; the model adds from left to right.
\<close>

definition torch_tensor :: "real list \<Rightarrow> fval list" where
  "torch_tensor xs = map round32 xs"

definition t_sum :: "fval list \<Rightarrow> fval" where
  "t_sum t = foldl fadd32 (Fin 0) t"

definition t_mean :: "fval list \<Rightarrow> fval" where
  "t_mean t = fdiv32 (t_sum t) (round32 (real (length t)))"

definition t_std :: "fval list \<Rightarrow> fval" where
  "t_std t =
     (let m = t_mean t;
          sq = map (\<lambda>x. fmul32 (fsub32 x m) (fsub32 x m)) t
      in fsqrt32 (fdiv32 (t_sum sq) (round32 (real (length t - 1)))))"

text \<open>
  The arithmetic mean of a Python sequence, as a float: what \<open>np.mean\<close> approximates,
  and \<open>NaN\<close> for the empty sequence. It stands for the means that are only printed.
\<close>

definition np_mean :: "real list \<Rightarrow> fval" where
  "np_mean xs = fdiv (Fin (sum_list xs)) (Fin (real (length xs)))"

section \<open>Return Standardizer\<close>

text \<open>
  \<^verbatim>\<open>
  def standardise_returns(returns):
      eps = np.finfo(np.float32).eps.item()
      returns = torch.tensor(returns, dtype=torch.float32).to(device)
      returns = (returns - returns.mean()) / (returns.std() + eps)
      return returns
  \<close>
  The machine epsilon of \<open>float32\<close> is \<open>2 ^ -23\<close>.
\<close>

definition float32_eps :: real where
  "float32_eps = 1 / 2 ^ 23"

definition standardise_returns :: "real list \<Rightarrow> fval list" where
  "standardise_returns returns =
     (let eps = float32_eps;
          t = torch_tensor returns;
          mean = t_mean t;
          denominator = fadd32 (t_std t) (round32 eps)
      in map (\<lambda>x. fdiv32 (fsub32 x mean) denominator) t)"

text \<open>
  The mean and the sample standard deviation of a list of reals in exact arithmetic,
  the latter for lists of at least two elements.
\<close>

definition sample_mean :: "real list \<Rightarrow> real" where
  "sample_mean xs = sum_list xs / real (length xs)"

definition sample_std :: "real list \<Rightarrow> real" where
  "sample_std xs =
     sqrt (sum_list (map (\<lambda>x. (x - sample_mean xs) * (x - sample_mean xs)) xs)
           / real (length xs - 1))"

text \<open>
  "Within tolerance": a finite value at most \<open>tol\<close> away from the target.
\<close>

definition within_tolerance :: "real \<Rightarrow> fval \<Rightarrow> real \<Rightarrow> bool" where
  "within_tolerance tol a b = (case a of Fin x \<Rightarrow> \<bar>x - b\<bar> \<le> tol | _ \<Rightarrow> False)"

text \<open>
  The numbers in the tensor made of a sequence, where they are all finite; the Euclidean
  norm of a list; and the tolerance within which the standardised output of \<open>n\<close> numbers
  of magnitude at most \<open>M\<close> and standard deviation \<open>s\<close> has the moments of the exactly
  standardised input: forty unit roundoffs per element, times the ratio of the magnitude
  to the denominator \<open>s + eps\<close>.
\<close>

definition tensor_values :: "real list \<Rightarrow> real list" where
  "tensor_values xs = map the_fin (torch_tensor xs)"

definition l2norm :: "real list \<Rightarrow> real" where
  "l2norm xs = sqrt (sum_list (map (\<lambda>x. x * x) xs))"

definition float32_tolerance :: "nat \<Rightarrow> real \<Rightarrow> real \<Rightarrow> real" where
  "float32_tolerance n M s = 40 * real n * float32_u * (1 + M / (s + float32_eps))"

section \<open>The world the notebook runs in\<close>

text \<open>
  The notebook holds three network objects: \<open>LL_policy\<close> and \<open>LL_value\<close>, which are
  trained, and \<open>model\<close>, a policy network restored from a checkpoint for evaluation. A
  network object is a reference to its parameter tensors; an optimiser is constructed
  over the parameters of one network (\<open>optim.Adam(LL_policy.parameters(), ...)\<close>) and
  keeps its own moment estimates.
\<close>

datatype module_ref = LL_policy | LL_value | model

datatype optimizer = Adam (owner: module_ref)

text \<open>
  The mutable state: the simulator behind the global \<open>env\<close>, the random generator that
  action sampling draws from, and per network its parameters, the gradient buffer
  (\<open>.grad\<close>, \<open>None\<close> when cleared) and the state of its optimiser.
\<close>

record ('e, 'g, 'p, 'm) world =
  sim :: 'e
  torch_rng :: 'g
  params :: "module_ref \<Rightarrow> 'p"
  grad :: "module_ref \<Rightarrow> 'p option"
  adam_state :: "module_ref \<Rightarrow> 'm"

text \<open>
  What the notebook takes from Gymnasium and PyTorch is a parameter of the model: the
  simulator's \<open>reset\<close> and \<open>step\<close> (observation, reward, terminated, truncated), the
  numerics of the two network classes (a sampled action with its log-probability and the
  derivative of that log-probability in the network's own parameters; a state value with
  its derivative), addition and scaling of gradients, Adam's update of one parameter
  set from its gradient, and the two \<open>float64\<close> reductions of the Training Driver:
  the value Python's \<open>sum\<close> computes for the rewards of an episode (it adds from left to
  right and rounds after every addition) and the value \<open>np.mean\<close> computes for a
  sequence of scores. NumPy adds in an order of its own, so the computed mean can differ
  from the arithmetic mean in the last bits, and the Training Driver branches on it.
  These are total functions: an exception raised inside the simulator or the library is
  not modelled.
\<close>

record ('e, 'o, 'a, 'g, 'p, 'm) externals =
  env_reset :: "'e \<Rightarrow> 'o \<times> 'e"
  env_step :: "'a \<Rightarrow> 'e \<Rightarrow> ('o \<times> real \<times> bool \<times> bool) \<times> 'e"
  policy_net :: "'p \<Rightarrow> 'o \<Rightarrow> 'g \<Rightarrow> ('a \<times> fval \<times> 'p) \<times> 'g"
  value_net :: "'p \<Rightarrow> 'o \<Rightarrow> fval \<times> 'p"
  padd :: "'p \<Rightarrow> 'p \<Rightarrow> 'p"
  pscale :: "fval \<Rightarrow> 'p \<Rightarrow> 'p"
  adam_step :: "'m \<Rightarrow> 'p \<Rightarrow> 'p \<Rightarrow> 'm \<times> 'p"
  py_sum :: "real list \<Rightarrow> real"
  np_mean_float :: "real list \<Rightarrow> fval"

subsection \<open>Scalars that carry an autograd graph\<close>

text \<open>
  A differentiable scalar is its value and, for every network its graph reaches, the
  derivative of the value in that network's parameters; \<open>None\<close> for a network the graph
  does not reach. \<open>detach()\<close> and \<open>torch.tensor(t)\<close> keep the value and drop the graph.
\<close>

record 'p tensor =
  tval :: fval
  tgrad :: "module_ref \<Rightarrow> 'p option"

definition t_const :: "fval \<Rightarrow> 'p tensor" where
  "t_const c = \<lparr>tval = c, tgrad = (\<lambda>m. None)\<rparr>"

definition t_detach :: "'p tensor \<Rightarrow> 'p tensor" where
  "t_detach t = t\<lparr>tgrad := (\<lambda>m. None)\<rparr>"

fun grad_join :: "('p \<Rightarrow> 'p \<Rightarrow> 'p) \<Rightarrow> 'p option \<Rightarrow> 'p option \<Rightarrow> 'p option" where
  "grad_join f None h = h"
| "grad_join f (Some g) None = Some g"
| "grad_join f (Some g) (Some h) = Some (f g h)"

definition t_neg :: "('e, 'o, 'a, 'g, 'p, 'm) externals \<Rightarrow> 'p tensor \<Rightarrow> 'p tensor" where
  "t_neg X t =
     \<lparr>tval = fneg (tval t), tgrad = (\<lambda>m. map_option (pscale X (Fin (- 1))) (tgrad t m))\<rparr>"

definition t_add ::
    "('e, 'o, 'a, 'g, 'p, 'm) externals \<Rightarrow> 'p tensor \<Rightarrow> 'p tensor \<Rightarrow> 'p tensor" where
  "t_add X a b =
     \<lparr>tval = fadd32 (tval a) (tval b),
      tgrad = (\<lambda>m. grad_join (padd X) (tgrad a m) (tgrad b m))\<rparr>"

definition t_sub ::
    "('e, 'o, 'a, 'g, 'p, 'm) externals \<Rightarrow> 'p tensor \<Rightarrow> 'p tensor \<Rightarrow> 'p tensor" where
  "t_sub X a b = t_add X a (t_neg X b)"

definition t_mul ::
    "('e, 'o, 'a, 'g, 'p, 'm) externals \<Rightarrow> 'p tensor \<Rightarrow> 'p tensor \<Rightarrow> 'p tensor" where
  "t_mul X a b =
     \<lparr>tval = fmul32 (tval a) (tval b),
      tgrad = (\<lambda>m. grad_join (padd X)
                      (map_option (pscale X (tval b)) (tgrad a m))
                      (map_option (pscale X (tval a)) (tgrad b m)))\<rparr>"

definition t_div_const ::
    "('e, 'o, 'a, 'g, 'p, 'm) externals \<Rightarrow> 'p tensor \<Rightarrow> fval \<Rightarrow> 'p tensor" where
  "t_div_const X a c =
     \<lparr>tval = fdiv32 (tval a) c,
      tgrad = (\<lambda>m. map_option (pscale X (fdiv32 (Fin 1) c)) (tgrad a m))\<rparr>"

definition t_total ::
    "('e, 'o, 'a, 'g, 'p, 'm) externals \<Rightarrow> 'p tensor list \<Rightarrow> 'p tensor" where
  "t_total X ts = foldl (t_add X) (t_const (Fin 0)) ts"

text \<open>
  Elementwise operations on two one-dimensional tensors broadcast: equal lengths pair
  up, a single element (or a zero-dimensional tensor, which \<open>squeeze()\<close> makes of one
  element) pairs with every element of the other, and anything else raises.
\<close>

definition broadcast :: "'x list \<Rightarrow> 'y list \<Rightarrow> py_error + ('x \<times> 'y) list" where
  "broadcast xs ys =
     (if length xs = length ys then Inr (zip xs ys)
      else if length xs = 1 then Inr (map (\<lambda>y. (hd xs, y)) ys)
      else if length ys = 1 then Inr (map (\<lambda>x. (x, hd ys)) xs)
      else Inl RuntimeError)"

text \<open>\<open>torch.stack\<close> refuses an empty list; \<open>squeeze()\<close> leaves the elements in order.\<close>

definition stack_squeeze :: "'x list \<Rightarrow> py_error + 'x list" where
  "stack_squeeze ts = (if ts = [] then Inl RuntimeError else Inr ts)"

text \<open>
  \<open>optimizer.zero_grad()\<close> clears the gradient buffers of the optimiser's own
  parameters. \<open>loss.backward()\<close> refuses a loss without a graph and otherwise adds, for
  every network the graph reaches, the derivative to that network's buffer.
  \<open>optimizer.step()\<close> updates the optimiser's own parameters from their buffer and
  skips them when the buffer is empty.
\<close>

definition zero_grad :: "optimizer \<Rightarrow> ('e, 'g, 'p, 'm) world \<Rightarrow> ('e, 'g, 'p, 'm) world" where
  "zero_grad opt w = w\<lparr>grad := (grad w)(owner opt := None)\<rparr>"

definition backward ::
    "('e, 'o, 'a, 'g, 'p, 'm) externals \<Rightarrow> 'p tensor \<Rightarrow> ('e, 'g, 'p, 'm) world
      \<Rightarrow> py_error + ('e, 'g, 'p, 'm) world" where
  "backward X loss w =
     (if tgrad loss LL_policy = None \<and> tgrad loss LL_value = None \<and> tgrad loss model = None
      then Inl RuntimeError
      else Inr (w\<lparr>grad := (\<lambda>m. grad_join (padd X) (grad w m) (tgrad loss m))\<rparr>))"

definition opt_step ::
    "('e, 'o, 'a, 'g, 'p, 'm) externals \<Rightarrow> optimizer \<Rightarrow> ('e, 'g, 'p, 'm) world
      \<Rightarrow> ('e, 'g, 'p, 'm) world" where
  "opt_step X opt w =
     (case grad w (owner opt) of
        None \<Rightarrow> w
      | Some g \<Rightarrow>
          (let (s', p') = adam_step X (adam_state w (owner opt)) (params w (owner opt)) g
           in w\<lparr>params := (params w)(owner opt := p'),
                adam_state := (adam_state w)(owner opt := s')\<rparr>))"

subsection \<open>The two network classes\<close>

text \<open>
  \<open>PolicyNetwork.act\<close> runs the network on its own parameters, samples an action and
  returns it with the log-probability, whose graph reaches this network only.
  \<open>ValueNetwork.forward\<close> returns the state value, whose graph reaches this network only.
\<close>

definition act ::
    "('e, 'o, 'a, 'g, 'p, 'm) externals \<Rightarrow> module_ref \<Rightarrow> 'o \<Rightarrow> ('e, 'g, 'p, 'm) world
      \<Rightarrow> ('a \<times> 'p tensor) \<times> ('e, 'g, 'p, 'm) world" where
  "act X policy state w =
     (let ((action, lp, dlp), g') = policy_net X (params w policy) state (torch_rng w)
      in ((action, \<lparr>tval = lp, tgrad = (\<lambda>m. None)(policy \<mapsto> dlp)\<rparr>), w\<lparr>torch_rng := g'\<rparr>))"

definition forward_value ::
    "('e, 'o, 'a, 'g, 'p, 'm) externals \<Rightarrow> module_ref \<Rightarrow> 'o \<Rightarrow> ('e, 'g, 'p, 'm) world
      \<Rightarrow> 'p tensor" where
  "forward_value X value_function state w =
     (let (v, dv) = value_net X (params w value_function) state
      in \<lparr>tval = v, tgrad = (\<lambda>m. None)(value_function \<mapsto> dv)\<rparr>)"

section \<open>Trajectory Generator\<close>

text \<open>
  \<^verbatim>\<open>
  def generate_trajectory(policy, value_function, max_steps):
      log_probs = []
      rewards = []
      state_values = []
      state, _ = env.reset()
      for step in range(max_steps):
          state = torch.from_numpy(state).float().unsqueeze(0).to(device)
          action, log_prob = policy.act(state)
          value = value_function(state)
          next_state, reward, done, truncated , _ = env.step(action)
          rewards.append(reward)
          log_probs.append(log_prob)
          state_values.append(value)
          state = next_state
          if done:
              break
      return  log_probs, rewards, state_values
  \<close>
  \<open>trajectory_step\<close> is the loop body up to the three appends: it returns the step's
  record, the termination flag and the next observation. \<open>trajectory_loop\<close> is the
  \<open>for\<close> loop with its \<open>break\<close>; its counter is the number of iterations left.
  Turning the observation into a tensor does not change it for the networks of the
  model. The \<open>truncated\<close> flag of the environment is read and not used.
\<close>

definition trajectory_step ::
    "('e, 'o, 'a, 'g, 'p, 'm) externals \<Rightarrow> module_ref \<Rightarrow> module_ref \<Rightarrow> 'o
      \<Rightarrow> ('e, 'g, 'p, 'm) world
      \<Rightarrow> ('p tensor \<times> real \<times> 'p tensor \<times> bool) \<times> 'o \<times> ('e, 'g, 'p, 'm) world" where
  "trajectory_step X policy value_function state w =
     (let ((action, log_prob), w1) = act X policy state w;
          value = forward_value X value_function state w1;
          ((next_state, reward, done, truncated), e') = env_step X action (sim w1)
      in ((log_prob, reward, value, done), next_state, w1\<lparr>sim := e'\<rparr>))"

fun trajectory_loop ::
    "('e, 'o, 'a, 'g, 'p, 'm) externals \<Rightarrow> module_ref \<Rightarrow> module_ref \<Rightarrow> nat \<Rightarrow> 'o
      \<Rightarrow> 'p tensor list \<times> real list \<times> 'p tensor list \<Rightarrow> ('e, 'g, 'p, 'm) world
      \<Rightarrow> ('p tensor list \<times> real list \<times> 'p tensor list) \<times> ('e, 'g, 'p, 'm) world" where
  "trajectory_loop X policy value_function 0 state acc w = (acc, w)"
| "trajectory_loop X policy value_function (Suc n) state (log_probs, rewards, state_values) w =
     (let ((log_prob, reward, value, done), next_state, w') =
            trajectory_step X policy value_function state w;
          acc' = (log_probs @ [log_prob], rewards @ [reward], state_values @ [value])
      in if done then (acc', w')
         else trajectory_loop X policy value_function n next_state acc' w')"

definition generate_trajectory ::
    "('e, 'o, 'a, 'g, 'p, 'm) externals \<Rightarrow> module_ref \<Rightarrow> module_ref \<Rightarrow> int
      \<Rightarrow> ('e, 'g, 'p, 'm) world
      \<Rightarrow> ('p tensor list \<times> real list \<times> 'p tensor list) \<times> ('e, 'g, 'p, 'm) world" where
  "generate_trajectory X policy value_function max_steps w =
     (let (state, e0) = env_reset X (sim w)
      in trajectory_loop X policy value_function (nat max_steps) state ([], [], [])
           (w\<lparr>sim := e0\<rparr>))"

text \<open>
  The same run with the \<open>break\<close> taken out: the observation and world after \<open>k\<close> loop
  bodies, and the termination flag the environment reports in body number \<open>k\<close>
  (counted from \<open>0\<close>). They say what "the first step on which the environment reports
  termination" is without referring to where the loop stops.
\<close>

definition body_next ::
    "('e, 'o, 'a, 'g, 'p, 'm) externals \<Rightarrow> module_ref \<Rightarrow> module_ref
      \<Rightarrow> 'o \<times> ('e, 'g, 'p, 'm) world \<Rightarrow> 'o \<times> ('e, 'g, 'p, 'm) world" where
  "body_next X policy value_function sw =
     snd (trajectory_step X policy value_function (fst sw) (snd sw))"

fun unbroken ::
    "('e, 'o, 'a, 'g, 'p, 'm) externals \<Rightarrow> module_ref \<Rightarrow> module_ref \<Rightarrow> nat
      \<Rightarrow> 'o \<times> ('e, 'g, 'p, 'm) world \<Rightarrow> 'o \<times> ('e, 'g, 'p, 'm) world" where
  "unbroken X policy value_function 0 sw = sw"
| "unbroken X policy value_function (Suc k) sw =
     body_next X policy value_function (unbroken X policy value_function k sw)"

definition reports_done ::
    "('e, 'o, 'a, 'g, 'p, 'm) externals \<Rightarrow> module_ref \<Rightarrow> module_ref
      \<Rightarrow> 'o \<times> ('e, 'g, 'p, 'm) world \<Rightarrow> nat \<Rightarrow> bool" where
  "reports_done X policy value_function sw k =
     snd (snd (snd (fst (trajectory_step X policy value_function
            (fst (unbroken X policy value_function k sw))
            (snd (unbroken X policy value_function k sw))))))"

definition after_reset ::
    "('e, 'o, 'a, 'g, 'p, 'm) externals \<Rightarrow> ('e, 'g, 'p, 'm) world
      \<Rightarrow> 'o \<times> ('e, 'g, 'p, 'm) world" where
  "after_reset X w = (let (state, e0) = env_reset X (sim w) in (state, w\<lparr>sim := e0\<rparr>))"

section \<open>Advantage and optimisation step\<close>

text \<open>
  \<^verbatim>\<open>
  def optimise_policy(policy_optimizer, log_probs, returns, state_values):
      state_values = torch.stack(state_values).squeeze()
      advantages = returns - state_values.detach()
      advantages = torch.tensor(advantages).to(device)
      policy_loss = []
      for log_prob, advantage in zip(log_probs, advantages):
          policy_loss.append(-log_prob * advantage)
      policy_loss = torch.cat(policy_loss).sum()
      policy_optimizer.zero_grad()
      policy_loss.backward()
      policy_optimizer.step()
  \<close>
  \<open>torch.cat\<close> refuses an empty list.
\<close>

definition optimise_policy ::
    "('e, 'o, 'a, 'g, 'p, 'm) externals \<Rightarrow> optimizer \<Rightarrow> 'p tensor list \<Rightarrow> fval list
      \<Rightarrow> 'p tensor list \<Rightarrow> ('e, 'g, 'p, 'm) world \<Rightarrow> py_error + ('e, 'g, 'p, 'm) world" where
  "optimise_policy X policy_optimizer log_probs returns state_values w =
     (case stack_squeeze state_values of
        Inl e \<Rightarrow> Inl e
      | Inr stacked \<Rightarrow>
          (case broadcast (map t_const returns) (map t_detach stacked) of
             Inl e \<Rightarrow> Inl e
           | Inr pairs \<Rightarrow>
               (let advantages = map (\<lambda>(r, v). t_sub X r v) pairs;
                    advantages' = map t_detach advantages;
                    policy_loss = map (\<lambda>(log_prob, advantage). t_mul X (t_neg X log_prob) advantage)
                                      (zip log_probs advantages')
                in if policy_loss = [] then Inl RuntimeError
                   else (case backward X (t_total X policy_loss) (zero_grad policy_optimizer w) of
                           Inl e \<Rightarrow> Inl e
                         | Inr w' \<Rightarrow> Inr (opt_step X policy_optimizer w')))))"

text \<open>
  \<^verbatim>\<open>
  def optimise_value_function(value_optimizer, returns, state_values):
      state_values = torch.stack(state_values).squeeze()
      value_loss = F.mse_loss(state_values, returns)
      value_optimizer.zero_grad()
      value_loss.backward()
      value_optimizer.step()
  \<close>
  \<open>F.mse_loss\<close> is the mean of the squared elementwise differences.
\<close>

definition mse_loss ::
    "('e, 'o, 'a, 'g, 'p, 'm) externals \<Rightarrow> 'p tensor list \<Rightarrow> 'p tensor list
      \<Rightarrow> py_error + 'p tensor" where
  "mse_loss X inputs targets =
     (case broadcast inputs targets of
        Inl e \<Rightarrow> Inl e
      | Inr pairs \<Rightarrow>
          (let sq = map (\<lambda>(v, r). t_mul X (t_sub X v r) (t_sub X v r)) pairs
           in Inr (t_div_const X (t_total X sq) (round32 (real (length sq))))))"

definition optimise_value_function ::
    "('e, 'o, 'a, 'g, 'p, 'm) externals \<Rightarrow> optimizer \<Rightarrow> fval list \<Rightarrow> 'p tensor list
      \<Rightarrow> ('e, 'g, 'p, 'm) world \<Rightarrow> py_error + ('e, 'g, 'p, 'm) world" where
  "optimise_value_function X value_optimizer returns state_values w =
     (case stack_squeeze state_values of
        Inl e \<Rightarrow> Inl e
      | Inr stacked \<Rightarrow>
          (case mse_loss X stacked (map t_const returns) of
             Inl e \<Rightarrow> Inl e
           | Inr value_loss \<Rightarrow>
               (case backward X value_loss (zero_grad value_optimizer w) of
                  Inl e \<Rightarrow> Inl e
                | Inr w' \<Rightarrow> Inr (opt_step X value_optimizer w'))))"

section \<open>Training Driver\<close>

text \<open>
  \<^verbatim>\<open>
  def train_agent(policy, value_function, policy_optimizer, value_optimizer, num_episodes,
                  max_steps, gamma, log_interval, early_stopping_threshold=None):
      recent_scores = deque(maxlen=100)
      scores = []
      for i_episode in range(1, num_episodes + 1):
          log_probs, rewards, state_values = generate_trajectory(policy, value_function, max_steps)
          episode_score = sum(rewards)
          recent_scores.append(episode_score)
          scores.append(episode_score)
          returns = calculate_discounted_returns(rewards, max_steps, gamma)
          standardised_returns = standardise_returns(returns)
          optimise_value_function(value_optimizer, standardised_returns, state_values)
          optimise_policy(policy_optimizer, log_probs, standardised_returns, state_values)
          if early_stopping_threshold is not None and len(recent_scores) == recent_scores.maxlen:
              avg_score = np.mean(recent_scores)
              if avg_score >= early_stopping_threshold:
                  ...print...
                  break
          if i_episode % log_interval == 0:
              ...print...
      return scores
  \<close>
  \<open>train_episode\<close> is the part of the loop body that touches the world: the rollout and
  the two updates, with the episode's score as its result. The two appends of the score
  are in \<open>train_loop\<close>; an exception between them and the early-stopping test leaves
  the function, so appending after the updates returns the same. The printed lines are
  not part of the model; the remainder by \<open>log_interval\<close>, which raises on zero, is.
\<close>

definition train_episode ::
    "('e, 'o, 'a, 'g, 'p, 'm) externals \<Rightarrow> module_ref \<Rightarrow> module_ref \<Rightarrow> optimizer \<Rightarrow> optimizer
      \<Rightarrow> int \<Rightarrow> real \<Rightarrow> ('e, 'g, 'p, 'm) world \<Rightarrow> py_error + (real \<times> ('e, 'g, 'p, 'm) world)" where
  "train_episode X policy value_function policy_optimizer value_optimizer max_steps gamma w =
     (let ((log_probs, rewards, state_values), w1) =
            generate_trajectory X policy value_function max_steps w;
          episode_score = py_sum X rewards
      in case calculate_discounted_returns rewards max_steps gamma of
           Inl e \<Rightarrow> Inl e
         | Inr returns \<Rightarrow>
             (let standardised_returns = standardise_returns (items returns)
              in case optimise_value_function X value_optimizer standardised_returns
                        state_values w1 of
                   Inl e \<Rightarrow> Inl e
                 | Inr w2 \<Rightarrow>
                     (case optimise_policy X policy_optimizer log_probs standardised_returns
                             state_values w2 of
                        Inl e \<Rightarrow> Inl e
                      | Inr w3 \<Rightarrow> Inr (episode_score, w3))))"

definition stop_early ::
    "('e, 'o, 'a, 'g, 'p, 'm) externals \<Rightarrow> real option \<Rightarrow> real deque \<Rightarrow> bool" where
  "stop_early X early_stopping_threshold recent_scores =
     (case early_stopping_threshold of
        None \<Rightarrow> False
      | Some threshold \<Rightarrow>
          length (items recent_scores) = maxlen recent_scores
          \<and> fge (np_mean_float X (items recent_scores)) (Fin threshold))"

fun train_loop ::
    "('e, 'o, 'a, 'g, 'p, 'm) externals \<Rightarrow> module_ref \<Rightarrow> module_ref \<Rightarrow> optimizer \<Rightarrow> optimizer
      \<Rightarrow> int \<Rightarrow> real \<Rightarrow> int \<Rightarrow> real option \<Rightarrow> nat \<Rightarrow> int \<Rightarrow> real deque \<Rightarrow> real list
      \<Rightarrow> ('e, 'g, 'p, 'm) world \<Rightarrow> py_error + (real list \<times> ('e, 'g, 'p, 'm) world)" where
  "train_loop X policy value_function policy_optimizer value_optimizer max_steps gamma
      log_interval early_stopping_threshold 0 i_episode recent_scores scores w = Inr (scores, w)"
| "train_loop X policy value_function policy_optimizer value_optimizer max_steps gamma
      log_interval early_stopping_threshold (Suc n) i_episode recent_scores scores w =
     (case train_episode X policy value_function policy_optimizer value_optimizer
             max_steps gamma w of
        Inl e \<Rightarrow> Inl e
      | Inr (episode_score, w') \<Rightarrow>
          (let recent_scores' = append_right episode_score recent_scores;
               scores' = scores @ [episode_score]
           in if stop_early X early_stopping_threshold recent_scores' then Inr (scores', w')
              else if log_interval = 0 then Inl ZeroDivisionError
              else train_loop X policy value_function policy_optimizer value_optimizer
                     max_steps gamma log_interval early_stopping_threshold n (i_episode + 1)
                     recent_scores' scores' w'))"

definition train_agent ::
    "('e, 'o, 'a, 'g, 'p, 'm) externals \<Rightarrow> module_ref \<Rightarrow> module_ref \<Rightarrow> optimizer \<Rightarrow> optimizer
      \<Rightarrow> int \<Rightarrow> int \<Rightarrow> real \<Rightarrow> int \<Rightarrow> real option
      \<Rightarrow> ('e, 'g, 'p, 'm) world \<Rightarrow> py_error + (real list \<times> ('e, 'g, 'p, 'm) world)" where
  "train_agent X policy value_function policy_optimizer value_optimizer num_episodes max_steps
      gamma log_interval early_stopping_threshold w =
     train_loop X policy value_function policy_optimizer value_optimizer max_steps gamma
       log_interval early_stopping_threshold (nat num_episodes) 1
       \<lparr>items = [], maxlen = 100\<rparr> [] w"

text \<open>
  The episodes as they follow one another when nothing stops them: the scores of the
  first \<open>n\<close> episodes and the world they leave. The rolling window over a score history is
  the bounded deque after every score was appended to it in order.
\<close>

fun run_episodes ::
    "('e, 'o, 'a, 'g, 'p, 'm) externals \<Rightarrow> module_ref \<Rightarrow> module_ref \<Rightarrow> optimizer \<Rightarrow> optimizer
      \<Rightarrow> int \<Rightarrow> real \<Rightarrow> nat \<Rightarrow> ('e, 'g, 'p, 'm) world
      \<Rightarrow> py_error + (real list \<times> ('e, 'g, 'p, 'm) world)" where
  "run_episodes X policy value_function policy_optimizer value_optimizer max_steps gamma 0 w =
     Inr ([], w)"
| "run_episodes X policy value_function policy_optimizer value_optimizer max_steps gamma (Suc n) w =
     (case run_episodes X policy value_function policy_optimizer value_optimizer
             max_steps gamma n w of
        Inl e \<Rightarrow> Inl e
      | Inr (scores, w') \<Rightarrow>
          (case train_episode X policy value_function policy_optimizer value_optimizer
                  max_steps gamma w' of
             Inl e \<Rightarrow> Inl e
           | Inr (episode_score, w'') \<Rightarrow> Inr (scores @ [episode_score], w'')))"

definition rolling_window :: "real list \<Rightarrow> real deque" where
  "rolling_window scores = foldl (\<lambda>d x. append_right x d) \<lparr>items = [], maxlen = 100\<rparr> scores"

definition window_reached ::
    "('e, 'o, 'a, 'g, 'p, 'm) externals \<Rightarrow> real \<Rightarrow> real list \<Rightarrow> bool" where
  "window_reached X threshold scores =
     (length (items (rolling_window scores)) = 100
      \<and> fge (np_mean_float X (items (rolling_window scores))) (Fin threshold))"

section \<open>Evaluation Driver\<close>






section \<open>A deterministic stub environment\<close>

text \<open>
  A simulator for concrete runs: its state counts the steps of the current episode,
  every step pays \<open>reward\<close>, and the episode terminates on step number \<open>len\<close>. The
  networks, the gradients and the optimiser carry no information.
\<close>

definition stub :: "nat \<Rightarrow> real \<Rightarrow> (nat, unit, unit, unit, unit, unit) externals" where
  "stub len reward =
     \<lparr>env_reset = (\<lambda>e. ((), 0)),
      env_step = (\<lambda>a e. (((), reward, Suc e = len, False), Suc e)),
      policy_net = (\<lambda>p s g. (((), Fin 0, ()), g)),
      value_net = (\<lambda>p s. (Fin 0, ())),
      padd = (\<lambda>a b. ()),
      pscale = (\<lambda>c a. ()),
      adam_step = (\<lambda>s p g. ((), ())),
      py_sum = sum_list,
      np_mean_float = np_mean\<rparr>"

definition world0 :: "(nat, unit, unit, unit) world" where
  "world0 =
     \<lparr>sim = 0, torch_rng = (), params = (\<lambda>m. ()), grad = (\<lambda>m. None), adam_state = (\<lambda>m. ())\<rparr>"

text \<open>
  A second simulator, for runs of the Training Driver: every episode is a single step
  that terminates; its state counts the episodes begun, and the step pays \<open>0\<close> during
  the first \<open>warmup\<close> episodes and \<open>reward\<close> afterwards. \<open>staged_score i\<close> is the score of
  episode number \<open>i\<close> (counted from \<open>0\<close>) with \<open>50\<close> warm-up episodes and reward \<open>230\<close>.
\<close>

definition staged :: "nat \<Rightarrow> real \<Rightarrow> (nat, unit, unit, unit, unit, unit) externals" where
  "staged warmup reward =
     \<lparr>env_reset = (\<lambda>e. ((), Suc e)),
      env_step = (\<lambda>a e. (((), (if e \<le> warmup then 0 else reward), True, False), e)),
      policy_net = (\<lambda>p s g. (((), Fin 0, ()), g)),
      value_net = (\<lambda>p s. (Fin 0, ())),
      padd = (\<lambda>a b. ()),
      pscale = (\<lambda>c a. ()),
      adam_step = (\<lambda>s p g. ((), ())),
      py_sum = sum_list,
      np_mean_float = np_mean\<rparr>"

definition staged_score :: "nat \<Rightarrow> real" where
  "staged_score i = (if i < 50 then 0 else 230)"

text \<open>
  Externals with real-valued parameters, for runs of the two optimisation steps: the
  value network returns its parameter, the optimiser is plain gradient descent with step
  size \<open>1\<close>, and every parameter starts at \<open>1\<close>.
\<close>

definition descent :: "(unit, unit, unit, unit, real, unit) externals" where
  "descent =
     \<lparr>env_reset = (\<lambda>e. ((), ())),
      env_step = (\<lambda>a e. (((), 0, True, False), ())),
      policy_net = (\<lambda>p s g. (((), Fin 0, 1), g)),
      value_net = (\<lambda>p s. (Fin p, 1)),
      padd = (\<lambda>a b. a + b),
      pscale = (\<lambda>c a. case c of Fin x \<Rightarrow> x * a | _ \<Rightarrow> 0),
      adam_step = (\<lambda>s p g. ((), p - g)),
      py_sum = sum_list,
      np_mean_float = np_mean\<rparr>"

definition world1 :: "(unit, unit, real, unit) world" where
  "world1 =
     \<lparr>sim = (), torch_rng = (), params = (\<lambda>m. 1), grad = (\<lambda>m. None), adam_state = (\<lambda>m. ())\<rparr>"

section \<open>Properties of the Return Calculator\<close>

lemma length_discounted: "length (discounted gamma rs) = length rs"
  by (induction rs) auto

lemma appendleft_take:
  assumes a: "items d = take (maxlen d) ys"
  shows "items (appendleft x d) = take (maxlen d) (x # ys)"
proof (cases "maxlen d < length (x # items d)")
  case True
  with a have len: "length (items d) = maxlen d" by simp
  have "butlast (x # items d) = take (maxlen d) (x # items d)"
    using len by (simp add: butlast_conv_take)
  also have "\<dots> = take (maxlen d) (x # ys)"
    using a by (cases "maxlen d") simp_all
  finally show ?thesis using True by (simp add: appendleft_def Let_def)
next
  case False
  with a have "length ys < maxlen d" by simp
  then show ?thesis using False a by (simp add: appendleft_def Let_def)
qed

lemma maxlen_appendleft: "maxlen (appendleft x d) = maxlen d"
  by (simp add: appendleft_def Let_def)

lemma head_take_discounted:
  "(if length (take m (discounted g ys)) > 0 then take m (discounted g ys) ! 0 else 0)
    = (if m = 0 then 0 else (case discounted g ys of [] \<Rightarrow> 0 | y # _ \<Rightarrow> y))"
  by (cases m; cases "discounted g ys") auto

text \<open>
  The loop invariant: below index \<open>n\<close> still to do, the deque holds the first \<open>maxlen\<close>
  returns of the rewards from \<open>n\<close> on.
\<close>

lemma returns_loop_take:
  "n \<le> length rewards \<Longrightarrow> items d = take (maxlen d) (discounted g (drop n rewards)) \<Longrightarrow>
   items (returns_loop rewards g n d) = take (maxlen d) (discounted g rewards)
   \<and> maxlen (returns_loop rewards g n d) = maxlen d"
proof (induction n arbitrary: d)
  case 0
  then show ?case by simp
next
  case (Suc n)
  let ?x = "rewards ! n + g * (if length (items d) > 0 then items d ! 0 else 0)"
  let ?d = "appendleft ?x d"
  have n: "n < length rewards" using Suc.prems by simp
  have dr: "drop n rewards = rewards ! n # drop (Suc n) rewards"
    using n by (simp add: Cons_nth_drop_Suc)
  have "items ?d = take (maxlen d) (?x # discounted g (drop (Suc n) rewards))"
    using Suc.prems(2) by (rule appendleft_take)
  moreover have "take (maxlen d) (?x # discounted g (drop (Suc n) rewards))
      = take (maxlen d) (discounted g (drop n rewards))"
    by (cases "maxlen d") (simp_all add: dr Suc.prems(2) head_take_discounted split: list.splits)
  ultimately have "items ?d = take (maxlen ?d) (discounted g (drop n rewards))"
    by (simp add: maxlen_appendleft)
  from Suc.IH[OF _ this] n show ?case
    by (simp add: maxlen_appendleft Let_def)
qed

lemma calculate_discounted_returns_take:
  "0 \<le> max_steps \<Longrightarrow>
   calculate_discounted_returns rewards max_steps g
     = Inr \<lparr>items = take (nat max_steps) (discounted g rewards), maxlen = nat max_steps\<rparr>"
  using returns_loop_take[of "length rewards" rewards "\<lparr>items = [], maxlen = nat max_steps\<rparr>" g]
  by (simp add: calculate_discounted_returns_def deque_new_def)

lemma calculate_discounted_returns_negative:
  "max_steps < 0 \<Longrightarrow> calculate_discounted_returns rewards max_steps g = Inl ValueError"
  by (simp add: calculate_discounted_returns_def deque_new_def)

lemma discounted_nth:
  "Suc t < length rs \<Longrightarrow> discounted g rs ! t = rs ! t + g * discounted g rs ! Suc t"
proof (induction rs arbitrary: t)
  case Nil
  then show ?case by simp
next
  case (Cons r rs)
  then show ?case
    by (cases t; cases "discounted g rs")
       (auto simp: length_discounted dest: arg_cong[where f = length])
qed

lemma discounted_last:
  fixes g :: "'a::semiring_0"
  shows "rs \<noteq> [] \<Longrightarrow> discounted g rs ! (length rs - 1) = rs ! (length rs - 1)"
proof (induction rs)
  case Nil
  then show ?case by simp
next
  case (Cons r rs)
  then show ?case by (cases rs) auto
qed

text \<open>
  Claim C1. For a reward sequence of length \<open>T\<close> with \<open>1 \<le> T \<le> max_steps\<close> and any
  discount factor (in particular every one in \<open>(0,1)\<close>), the Return Calculator returns
  \<open>T\<close> returns with \<open>returns[T-1] = r[T-1]\<close> and \<open>returns[t] = r[t] + gamma * returns[t+1]\<close>
  for every \<open>t < T-1\<close>; and for rewards \<open>[1,1,1,1,1]\<close> and \<open>gamma = 1\<close> (with \<open>max_steps\<close>
  at least \<open>5\<close>) it returns \<open>[5,4,3,2,1]\<close>.
\<close>

theorem calculate_discounted_returns_recurrence:
  fixes rewards :: "'a::semiring_0 list"
  shows "(1 \<le> length rewards \<and> int (length rewards) \<le> max_steps \<longrightarrow>
          (\<exists>returns. calculate_discounted_returns rewards max_steps gamma = Inr returns
             \<and> length (items returns) = length rewards
             \<and> items returns ! (length rewards - 1) = rewards ! (length rewards - 1)
             \<and> (\<forall>t. t < length rewards - 1 \<longrightarrow>
                   items returns ! t = rewards ! t + gamma * items returns ! (t + 1))))
       \<and> (5 \<le> m \<longrightarrow>
          (\<exists>returns. calculate_discounted_returns [1, 1, 1, 1, 1 :: real] m 1 = Inr returns
             \<and> items returns = [5, 4, 3, 2, 1]))"
proof (intro conjI impI)
  assume h: "1 \<le> length rewards \<and> int (length rewards) \<le> max_steps"
  then have nn: "0 \<le> max_steps" and ne: "rewards \<noteq> []" by auto
  have "length rewards \<le> nat max_steps" using h by linarith
  then have full: "take (nat max_steps) (discounted gamma rewards) = discounted gamma rewards"
    by (simp add: length_discounted)
  have "items \<lparr>items = discounted gamma rewards, maxlen = nat max_steps\<rparr> ! (length rewards - 1)
          = rewards ! (length rewards - 1)"
    using discounted_last[OF ne, of gamma] by simp
  moreover have "\<forall>t. t < length rewards - 1 \<longrightarrow>
      discounted gamma rewards ! t = rewards ! t + gamma * discounted gamma rewards ! (t + 1)"
    by (simp add: discounted_nth)
  ultimately show "\<exists>returns. calculate_discounted_returns rewards max_steps gamma = Inr returns
             \<and> length (items returns) = length rewards
             \<and> items returns ! (length rewards - 1) = rewards ! (length rewards - 1)
             \<and> (\<forall>t. t < length rewards - 1 \<longrightarrow>
                   items returns ! t = rewards ! t + gamma * items returns ! (t + 1))"
    using calculate_discounted_returns_take[OF nn, of rewards gamma] full
    by (simp add: length_discounted)
next
  assume m: "5 \<le> m"
  then have "0 \<le> m" by simp
  from calculate_discounted_returns_take[OF this, of "[1, 1, 1, 1, 1 :: real]" 1] m
  show "\<exists>returns. calculate_discounted_returns [1, 1, 1, 1, 1 :: real] m 1 = Inr returns
             \<and> items returns = [5, 4, 3, 2, 1]"
    by simp
qed

theorem calculate_discounted_returns_recurrence_witness:
  "1 \<le> length [1, 2, 4 :: real] \<and> int (length [1, 2, 4 :: real]) \<le> 3 \<and> (5 :: int) \<le> 5
   \<and> calculate_discounted_returns [1, 2, 4 :: real] 3 (1 / 2)
        = Inr \<lparr>items = [3, 4, 4], maxlen = 3\<rparr>
   \<and> (\<exists>returns. calculate_discounted_returns [1, 2, 4 :: real] 3 (1 / 2) = Inr returns
         \<and> length (items returns) = 3
         \<and> items returns ! 2 = 4
         \<and> (\<forall>t. t < 2 \<longrightarrow> items returns ! t = [1, 2, 4] ! t + 1 / 2 * items returns ! (t + 1)))
   \<and> (\<exists>returns. calculate_discounted_returns [1, 1, 1, 1, 1 :: real] 5 1 = Inr returns
         \<and> items returns = [5, 4, 3, 2, 1])"
proof -
  have ev: "calculate_discounted_returns [1, 2, 4 :: real] 3 (1 / 2)
              = Inr \<lparr>items = [3, 4, 4], maxlen = 3\<rparr>"
    by (simp add: calculate_discounted_returns_def deque_new_def appendleft_def
                  numeral_3_eq_3 Let_def)
  show ?thesis
    using calculate_discounted_returns_recurrence[of "[1, 2, 4 :: real]" 3 "1 / 2" 5] ev
    by simp
qed

text \<open>
  Claim C2, as amended. For \<open>max_steps \<ge> 0\<close> the Return Calculator returns the first
  \<open>min T max_steps\<close> discounted returns of a reward sequence of length \<open>T\<close>: the bounded
  deque drops the tail once it is full. The output has the input's length \<open>T\<close> when
  \<open>T \<le> max_steps\<close> and length \<open>max_steps\<close> otherwise.
\<close>

theorem calculate_discounted_returns_length:
  assumes "0 \<le> max_steps"
  shows "\<exists>returns. calculate_discounted_returns rewards max_steps gamma = Inr returns
           \<and> items returns = take (nat max_steps) (discounted gamma rewards)
           \<and> length (items returns) = min (length rewards) (nat max_steps)
           \<and> (int (length rewards) \<le> max_steps \<longrightarrow> length (items returns) = length rewards)"
  using calculate_discounted_returns_take[OF assms, of rewards gamma]
  by (auto simp: length_discounted)

theorem calculate_discounted_returns_length_witness:
  "(0 :: int) \<le> 3
   \<and> (\<exists>returns. calculate_discounted_returns [1, 2, 4 :: real] 3 (1 / 2) = Inr returns
         \<and> items returns = take (nat 3) (discounted (1 / 2) [1, 2, 4])
         \<and> length (items returns) = min (length [1, 2, 4 :: real]) (nat 3)
         \<and> (int (length [1, 2, 4 :: real]) \<le> 3 \<longrightarrow> length (items returns) = length [1, 2, 4 :: real]))"
  using calculate_discounted_returns_length[of 3 "[1, 2, 4 :: real]" "1 / 2"]
  by simp

text \<open>
  The claim as stated, with no relation between \<open>T\<close> and \<open>max_steps\<close>, fails: three
  rewards with \<open>max_steps = 2\<close> give two returns.
\<close>

theorem calculate_discounted_returns_length_counterexample:
  "calculate_discounted_returns [1, 2, 3 :: real] 2 1 = Inr \<lparr>items = [6, 5], maxlen = 2\<rparr>
   \<and> length [6, 5 :: real] \<noteq> length [1, 2, 3 :: real]"
  by (simp add: calculate_discounted_returns_def deque_new_def appendleft_def
                numeral_3_eq_3 Let_def)

section \<open>Properties of the Trajectory Generator\<close>

lemma trajectory_step_cases:
  obtains log_prob reward vl dn next_state w1 where
    "trajectory_step X p v state w = ((log_prob, reward, vl, dn), next_state, w1)"
  by (metis prod_cases4 prod_cases3)

text \<open>The three lists grow together, by one element per loop body.\<close>

lemma trajectory_loop_lengths:
  "trajectory_loop X p v n state (lp, rs, svs) w = ((lp', rs', svs'), w') \<Longrightarrow>
   length lp = length rs \<Longrightarrow> length svs = length rs \<Longrightarrow>
   length lp' = length rs' \<and> length svs' = length rs' \<and> length rs' \<le> length rs + n
   \<and> length rs \<le> length rs' \<and> (0 < n \<longrightarrow> length rs < length rs')"
proof (induction n arbitrary: state lp rs svs w)
  case 0
  then show ?case by simp
next
  case (Suc n)
  obtain log_prob reward vl dn next_state w1 where
    st: "trajectory_step X p v state w = ((log_prob, reward, vl, dn), next_state, w1)"
    by (rule trajectory_step_cases)
  show ?case
  proof (cases dn)
    case True
    with Suc.prems st show ?thesis by auto
  next
    case False
    with Suc.prems(1) st have
      "trajectory_loop X p v n next_state (lp @ [log_prob], rs @ [reward], svs @ [vl]) w1
        = ((lp', rs', svs'), w')" by simp
    from Suc.IH[OF this] Suc.prems(2,3) show ?thesis by auto
  qed
qed

lemma unbroken_shift:
  "unbroken X p v (Suc k) sw = unbroken X p v k (body_next X p v sw)"
  by (induction k) simp_all

lemma reports_done_shift:
  "reports_done X p v sw (Suc k) = reports_done X p v (body_next X p v sw) k"
  unfolding reports_done_def by (simp only: unbroken_shift)

lemma trajectory_loop_first_done:
  "k < n \<Longrightarrow> reports_done X p v (state, w) k \<Longrightarrow>
   (\<forall>j<k. \<not> reports_done X p v (state, w) j) \<Longrightarrow>
   \<exists>lp' rs' svs'. trajectory_loop X p v n state (lp, rs, svs) w
       = ((lp', rs', svs'), snd (unbroken X p v (Suc k) (state, w)))
     \<and> length rs' = length rs + Suc k"
proof (induction n arbitrary: k state lp rs svs w)
  case 0
  then show ?case by simp
next
  case (Suc n)
  obtain log_prob reward vl dn next_state w1 where
    st: "trajectory_step X p v state w = ((log_prob, reward, vl, dn), next_state, w1)"
    by (rule trajectory_step_cases)
  have d0: "reports_done X p v (state, w) 0 = dn"
    by (simp add: reports_done_def st)
  have nx: "body_next X p v (state, w) = (next_state, w1)"
    by (simp add: body_next_def st)
  show ?case
  proof (cases k)
    case 0
    with Suc.prems d0 have dn by simp
    then show ?thesis using st 0 nx by simp
  next
    case (Suc k')
    with Suc.prems(3) d0 have nd: "\<not> dn" by auto
    have a: "k' < n" using Suc.prems(1) Suc by simp
    have b: "reports_done X p v (next_state, w1) k'"
      using Suc.prems(2) Suc by (simp add: reports_done_shift nx)
    have c: "\<forall>j<k'. \<not> reports_done X p v (next_state, w1) j"
    proof (intro allI impI)
      fix j assume "j < k'"
      then have "Suc j < k" using Suc by simp
      with Suc.prems(3) have "\<not> reports_done X p v (state, w) (Suc j)" by blast
      then show "\<not> reports_done X p v (next_state, w1) j"
        by (simp add: reports_done_shift nx)
    qed
    from Suc.IH[OF a b c, of "lp @ [log_prob]" "rs @ [reward]" "svs @ [vl]"]
    show ?thesis using st nd Suc
      by (simp add: unbroken_shift[of X p v "Suc k'"] nx del: unbroken.simps)
  qed
qed

lemma trajectory_loop_never_done:
  "(\<forall>j<n. \<not> reports_done X p v (state, w) j) \<Longrightarrow>
   \<exists>lp' rs' svs'. trajectory_loop X p v n state (lp, rs, svs) w
       = ((lp', rs', svs'), snd (unbroken X p v n (state, w)))
     \<and> length rs' = length rs + n"
proof (induction n arbitrary: state lp rs svs w)
  case 0
  then show ?case by simp
next
  case (Suc n)
  obtain log_prob reward vl dn next_state w1 where
    st: "trajectory_step X p v state w = ((log_prob, reward, vl, dn), next_state, w1)"
    by (rule trajectory_step_cases)
  have d0: "reports_done X p v (state, w) 0 = dn"
    by (simp add: reports_done_def st)
  have nx: "body_next X p v (state, w) = (next_state, w1)"
    by (simp add: body_next_def st)
  from Suc.prems d0 have nd: "\<not> dn" by auto
  have c: "\<forall>j<n. \<not> reports_done X p v (next_state, w1) j"
  proof (intro allI impI)
    fix j assume "j < n"
    then have "Suc j < Suc n" by simp
    with Suc.prems have "\<not> reports_done X p v (state, w) (Suc j)" by blast
    then show "\<not> reports_done X p v (next_state, w1) j"
      by (simp add: reports_done_shift nx)
  qed
  from Suc.IH[OF c, of "lp @ [log_prob]" "rs @ [reward]" "svs @ [vl]"]
  show ?case using st nd
    by (simp add: unbroken_shift[of X p v n] nx del: unbroken.simps)
qed

lemma generate_trajectory_loop:
  "generate_trajectory X p v max_steps w =
     trajectory_loop X p v (nat max_steps) (fst (after_reset X w)) ([], [], [])
       (snd (after_reset X w))"
  by (simp add: generate_trajectory_def after_reset_def split: prod.splits)

lemmas stub_defs = stub_def world0_def generate_trajectory_def trajectory_step_def act_def
  forward_value_def after_reset_def reports_done_def body_next_def

lemma trajectory_lengths_bounds:
  assumes "1 \<le> max_steps"
  shows "\<exists>log_probs rewards state_values w'.
           generate_trajectory X policy value_function max_steps w
             = ((log_probs, rewards, state_values), w')
         \<and> length log_probs = length rewards
         \<and> length state_values = length rewards
         \<and> 1 \<le> length rewards
         \<and> int (length rewards) \<le> max_steps"
proof -
  obtain lp rs svs w' where
    g: "generate_trajectory X policy value_function max_steps w = ((lp, rs, svs), w')"
    by (metis surj_pair)
  then have "trajectory_loop X policy value_function (nat max_steps) (fst (after_reset X w))
               ([], [], []) (snd (after_reset X w)) = ((lp, rs, svs), w')"
    by (simp add: generate_trajectory_loop)
  from trajectory_loop_lengths[OF this] assms
  have "length lp = length rs \<and> length svs = length rs \<and> 1 \<le> length rs
         \<and> int (length rs) \<le> max_steps"
    by (auto simp: Suc_le_eq)
  with g show ?thesis by blast
qed

text \<open>
  Claim C10. For \<open>max_steps \<ge> 1\<close> the three sequences the Trajectory Generator returns
  (log-probabilities, rewards, value estimates) have one common length \<open>L\<close>, and
  \<open>1 \<le> L \<le> max_steps\<close>.
\<close>

theorem generate_trajectory_lengths:
  assumes "1 \<le> max_steps"
  shows "\<exists>log_probs rewards state_values w'.
           generate_trajectory X policy value_function max_steps w
             = ((log_probs, rewards, state_values), w')
         \<and> length log_probs = length rewards
         \<and> length state_values = length rewards
         \<and> 1 \<le> length rewards
         \<and> int (length rewards) \<le> max_steps"
  using assms by (rule trajectory_lengths_bounds)

theorem generate_trajectory_lengths_witness:
  "(1 :: int) \<le> 5
   \<and> (\<exists>log_probs rewards state_values w'.
           generate_trajectory (stub 3 1) LL_policy LL_value 5 world0
             = ((log_probs, rewards, state_values), w')
         \<and> length log_probs = length rewards
         \<and> length state_values = length rewards
         \<and> 1 \<le> length rewards
         \<and> int (length rewards) \<le> 5)"
  using generate_trajectory_lengths[of 5 "stub 3 1" LL_policy LL_value world0]
  by simp

text \<open>
  Claim C5. For \<open>max_steps \<ge> 1\<close> the Trajectory Generator stops at the first step on
  which the environment reports termination: if that is body number \<open>k < max_steps\<close>
  (counted from \<open>0\<close>), the trajectory has \<open>k + 1\<close> records and the world is the one after
  \<open>k + 1\<close> loop bodies. If no step below \<open>max_steps\<close> reports termination, it runs exactly
  \<open>max_steps\<close> steps. If the very first step reports termination, the trajectory has
  length \<open>1\<close>: the record is appended before the loop breaks.
\<close>

theorem generate_trajectory_stops:
  assumes "1 \<le> max_steps"
  shows "\<exists>log_probs rewards state_values w'.
           generate_trajectory X policy value_function max_steps w
             = ((log_probs, rewards, state_values), w')
         \<and> (\<forall>k. k < nat max_steps
                \<and> reports_done X policy value_function (after_reset X w) k
                \<and> (\<forall>j<k. \<not> reports_done X policy value_function (after_reset X w) j)
              \<longrightarrow> length rewards = Suc k
                  \<and> w' = snd (unbroken X policy value_function (Suc k) (after_reset X w)))
         \<and> ((\<forall>k<nat max_steps. \<not> reports_done X policy value_function (after_reset X w) k)
              \<longrightarrow> length rewards = nat max_steps
                  \<and> w' = snd (unbroken X policy value_function (nat max_steps) (after_reset X w)))
         \<and> (reports_done X policy value_function (after_reset X w) 0 \<longrightarrow> length rewards = 1)"
proof -
  let ?sw = "after_reset X w"
  let ?n = "nat max_steps"
  obtain lp rs svs w' where
    g: "trajectory_loop X policy value_function ?n (fst ?sw) ([], [], []) (snd ?sw)
          = ((lp, rs, svs), w')"
    by (metis surj_pair)
  have first: "length rs = Suc k \<and> w' = snd (unbroken X policy value_function (Suc k) ?sw)"
    if "k < ?n" "reports_done X policy value_function ?sw k"
       "\<forall>j<k. \<not> reports_done X policy value_function ?sw j" for k
    using trajectory_loop_first_done[of k ?n X policy value_function "fst ?sw" "snd ?sw"
            "[]" "[]" "[]"] that g
    by auto
  have never: "length rs = ?n \<and> w' = snd (unbroken X policy value_function ?n ?sw)"
    if "\<forall>k<?n. \<not> reports_done X policy value_function ?sw k"
    using trajectory_loop_never_done[of ?n X policy value_function "fst ?sw" "snd ?sw"
            "[]" "[]" "[]"] that g
    by auto
  have zero: "length rs = 1" if "reports_done X policy value_function ?sw 0"
    using first[of 0] that assms by simp
  show ?thesis
    unfolding generate_trajectory_loop g
    using first never zero by blast
qed

theorem generate_trajectory_stops_witness:
  "(1 :: int) \<le> 5
   \<and> reports_done (stub 3 1) LL_policy LL_value (after_reset (stub 3 1) world0) 2
   \<and> \<not> reports_done (stub 3 1) LL_policy LL_value (after_reset (stub 3 1) world0) 0
   \<and> \<not> reports_done (stub 3 1) LL_policy LL_value (after_reset (stub 3 1) world0) 1
   \<and> length (fst (snd (fst (generate_trajectory (stub 3 1) LL_policy LL_value 5 world0)))) = 3
   \<and> sim (snd (generate_trajectory (stub 3 1) LL_policy LL_value 5 world0)) = 3"
proof -
  let ?sw = "after_reset (stub 3 1) world0"
  have d: "reports_done (stub 3 1) LL_policy LL_value ?sw 2
      \<and> \<not> reports_done (stub 3 1) LL_policy LL_value ?sw 0
      \<and> \<not> reports_done (stub 3 1) LL_policy LL_value ?sw 1"
    by (simp add: stub_defs numeral_2_eq_2)
  then have nd: "\<forall>j<2. \<not> reports_done (stub 3 1) LL_policy LL_value ?sw j"
    by (auto simp: less_2_cases_iff)
  have u: "sim (snd (unbroken (stub 3 1) LL_policy LL_value (Suc 2) ?sw)) = 3"
    by (simp add: stub_defs numeral_2_eq_2)
  from generate_trajectory_stops[of 5 "stub 3 1" LL_policy LL_value world0]
  obtain lp rs svs w' where
    g: "generate_trajectory (stub 3 1) LL_policy LL_value 5 world0 = ((lp, rs, svs), w')"
    and f: "\<forall>k. k < nat 5
                \<and> reports_done (stub 3 1) LL_policy LL_value ?sw k
                \<and> (\<forall>j<k. \<not> reports_done (stub 3 1) LL_policy LL_value ?sw j)
              \<longrightarrow> length rs = Suc k
                  \<and> w' = snd (unbroken (stub 3 1) LL_policy LL_value (Suc k) ?sw)"
    by auto
  from f[rule_format, of 2] d nd
  have "length rs = 3 \<and> w' = snd (unbroken (stub 3 1) LL_policy LL_value (Suc 2) ?sw)"
    by simp
  with g d u show ?thesis by simp
qed


section \<open>Properties of \<open>float32\<close> rounding\<close>

text \<open>
  The representable values form a finite set that is symmetric about zero, so the
  neighbours of a real in range exist, rounding is monotone, and it fixes every
  representable value.
\<close>

lemma finite_float32_values: "finite float32_values"
  unfolding float32_values_def by (intro finite_imageI finite_cartesian_product) simp_all

lemma finite_float32_grid: "finite float32_grid"
  unfolding float32_grid_def using finite_float32_values by simp

lemma float32_valuesI:
  "\<bar>m\<bar> < 2 ^ 24 \<Longrightarrow> - 149 \<le> e \<Longrightarrow> e \<le> 104 \<Longrightarrow> real_of_int m * power_int 2 e \<in> float32_values"
  unfolding float32_values_def by (intro image_eqI[where x = "(m, e)"]) auto

lemma float32_valuesE:
  assumes "y \<in> float32_values"
  obtains m e where "y = real_of_int m * power_int 2 e" "\<bar>m\<bar> < 2 ^ 24" "- 149 \<le> e" "e \<le> 104"
  using assms unfolding float32_values_def by auto

lemma float32_values_uminus: "y \<in> float32_values \<Longrightarrow> - y \<in> float32_values"
proof -
  assume "y \<in> float32_values"
  then obtain m e where y: "y = real_of_int m * power_int 2 e" and b: "\<bar>m\<bar> < 2 ^ 24" "- 149 \<le> e" "e \<le> 104"
    by (rule float32_valuesE)
  have "- y = real_of_int (- m) * power_int 2 e" using y by simp
  moreover have "\<bar>- m\<bar> < 2 ^ 24" using b by simp
  ultimately show ?thesis using b float32_valuesI[of "- m" e] by simp
qed

lemma float32_values_bound:
  assumes "y \<in> float32_values"
  shows "\<bar>y\<bar> \<le> (2 ^ 24 - 1) * 2 ^ 104"
proof -
  from assms obtain m e where y: "y = real_of_int m * power_int 2 e"
    and b: "\<bar>m\<bar> < 2 ^ 24" "- 149 \<le> e" "e \<le> 104"
    by (rule float32_valuesE)
  have m: "\<bar>real_of_int m\<bar> \<le> 2 ^ 24 - 1"
  proof -
    from b(1) have "\<bar>m\<bar> \<le> 2 ^ 24 - 1" by simp
    then have "real_of_int \<bar>m\<bar> \<le> real_of_int (2 ^ 24 - 1)" by (rule of_int_le_iff[THEN iffD2])
    then show ?thesis by simp
  qed
  have e: "power_int (2 :: real) e \<le> power_int 2 104"
    using b(3) by (intro power_int_increasing) simp_all
  have "\<bar>y\<bar> = \<bar>real_of_int m\<bar> * power_int 2 e"
    unfolding y by (simp add: abs_mult)
  also have "\<dots> \<le> (2 ^ 24 - 1) * power_int 2 104"
    using m e by (intro mult_mono) simp_all
  finally show ?thesis by simp
qed

lemma float32_values_lt: "y \<in> float32_values \<Longrightarrow> \<bar>y\<bar> < 2 ^ 128"
  using float32_values_bound[of y] by simp

lemma zero_float32: "0 \<in> float32_values"
  using float32_valuesI[of 0 0] by simp


lemma grid_top: "2 ^ 128 \<in> float32_grid" and grid_bot: "- (2 ^ 128) \<in> float32_grid"
  by (simp_all add: float32_grid_def)

lemma grid_range: "y \<in> float32_grid \<Longrightarrow> \<bar>y\<bar> \<le> 2 ^ 128"
  unfolding float32_grid_def using float32_values_lt[of y] by auto

lemma round_down_props:
  assumes "- (2 ^ 128) \<le> x"
  shows "round_down x \<in> float32_grid" and "round_down x \<le> x"
    and "\<And>y. y \<in> float32_grid \<Longrightarrow> y \<le> x \<Longrightarrow> y \<le> round_down x"
proof -
  let ?S = "{y \<in> float32_grid. y \<le> x}"
  have f: "finite ?S" using finite_float32_grid by simp
  have ne: "?S \<noteq> {}" using grid_bot assms by auto
  from Max_in[OF f ne] show "round_down x \<in> float32_grid" and "round_down x \<le> x"
    by (simp_all add: round_down_def)
  fix y assume "y \<in> float32_grid" "y \<le> x"
  then have "y \<in> ?S" by simp
  from Max_ge[OF f this] show "y \<le> round_down x" by (simp add: round_down_def)
qed

lemma round_up_props:
  assumes "x \<le> 2 ^ 128"
  shows "round_up x \<in> float32_grid" and "x \<le> round_up x"
    and "\<And>y. y \<in> float32_grid \<Longrightarrow> x \<le> y \<Longrightarrow> round_up x \<le> y"
proof -
  let ?S = "{y \<in> float32_grid. x \<le> y}"
  have f: "finite ?S" using finite_float32_grid by simp
  have ne: "?S \<noteq> {}" using grid_top assms by auto
  from Min_in[OF f ne] show "round_up x \<in> float32_grid" and "x \<le> round_up x"
    by (simp_all add: round_up_def)
  fix y assume "y \<in> float32_grid" "x \<le> y"
  then have "y \<in> ?S" by simp
  from Min_le[OF f this] show "round_up x \<le> y" by (simp add: round_up_def)
qed

lemma nearest_cases: "nearest x = round_down x \<or> nearest x = round_up x"
  by (simp add: nearest_def Let_def)

lemma nearest_in_grid:
  assumes "\<bar>x\<bar> \<le> 2 ^ 128"
  shows "nearest x \<in> float32_grid"
proof -
  from assms have "- (2 ^ 128) \<le> x" "x \<le> 2 ^ 128" by auto
  then show ?thesis
    using nearest_cases[of x] round_down_props(1)[of x] round_up_props(1)[of x] by auto
qed

lemma nearest_le:
  assumes "a \<in> float32_grid" and "x \<le> a" and "- (2 ^ 128) \<le> x"
  shows "nearest x \<le> a"
proof -
  have "x \<le> 2 ^ 128" using grid_range[OF assms(1)] assms(2) by auto
  then have "round_up x \<le> a" using assms(1,2) by (intro round_up_props(3))
  moreover have "round_down x \<le> a" using round_down_props(2)[OF assms(3)] assms(2) by simp
  ultimately show ?thesis using nearest_cases[of x] by auto
qed

lemma nearest_ge:
  assumes "a \<in> float32_grid" and "a \<le> x" and "x \<le> 2 ^ 128"
  shows "a \<le> nearest x"
proof -
  have "- (2 ^ 128) \<le> x" using grid_range[OF assms(1)] assms(2) by auto
  then have "a \<le> round_down x" using assms(1,2) by (intro round_down_props(3))
  moreover have "a \<le> round_up x" using round_up_props(2)[OF assms(3)] assms(2) by simp
  ultimately show ?thesis using nearest_cases[of x] by auto
qed

lemma nearest_grid:
  assumes "x \<in> float32_grid"
  shows "nearest x = x"
proof -
  have r: "- (2 ^ 128) \<le> x" "x \<le> 2 ^ 128" using grid_range[OF assms] by auto
  have "x \<le> nearest x" using assms r by (intro nearest_ge) simp_all
  moreover have "nearest x \<le> x" using assms r by (intro nearest_le) simp_all
  ultimately show ?thesis by simp
qed

text \<open>Rounding a representable value changes nothing.\<close>

lemma round32_float32:
  assumes "y \<in> float32_values"
  shows "round32 y = Fin y"
proof -
  have lt: "\<bar>y\<bar> < 2 ^ 128" using assms by (rule float32_values_lt)
  have "nearest y = y" using assms by (intro nearest_grid) (simp add: float32_grid_def)
  then show ?thesis using lt by (auto simp: round32_def Let_def)
qed

lemma round32_Fin_float32:
  assumes "round32 x = Fin y"
  shows "y \<in> float32_values"
proof -
  from assms have r: "\<bar>x\<bar> \<le> 2 ^ 128" and y: "y = nearest x"
    and n: "nearest x \<noteq> 2 ^ 128" "nearest x \<noteq> - (2 ^ 128)"
    by (auto simp: round32_def Let_def split: if_splits)
  from nearest_in_grid[OF r] n y show ?thesis by (simp add: float32_grid_def)
qed

text \<open>Rounding does not pass a representable bound.\<close>

lemma round32_abs_le:
  assumes "a \<in> float32_values" and "\<bar>x\<bar> \<le> a"
  shows "\<exists>y\<in>float32_values. round32 x = Fin y \<and> \<bar>y\<bar> \<le> a"
proof -
  have a: "a < 2 ^ 128" using float32_values_lt[OF assms(1)] by auto
  have ag: "a \<in> float32_grid" "- a \<in> float32_grid"
    using assms(1) float32_values_uminus[OF assms(1)] by (simp_all add: float32_grid_def)
  have x: "- (2 ^ 128) < x" "x < 2 ^ 128" using assms(2) a by auto
  have u: "nearest x \<le> a" using ag(1) assms(2) x by (intro nearest_le) auto
  have l: "- a \<le> nearest x" using ag(2) assms(2) x by (intro nearest_ge) auto
  from u l a have n: "nearest x \<noteq> 2 ^ 128" "nearest x \<noteq> - (2 ^ 128)" by auto
  then have r: "round32 x = Fin (nearest x)" using x by (simp add: round32_def Let_def)
  then have "nearest x \<in> float32_values" by (rule round32_Fin_float32)
  with r u l show ?thesis by auto
qed

lemma round32_ge:
  assumes "a \<in> float32_values" and "a \<le> x"
  shows "round32 x = PInf \<or> (\<exists>y\<in>float32_values. round32 x = Fin y \<and> a \<le> y)"
proof (cases "2 ^ 128 \<le> x")
  case True
  then show ?thesis by (simp add: round32_def)
next
  case False
  have a: "- (2 ^ 128) < a" using float32_values_lt[OF assms(1)] by auto
  have ag: "a \<in> float32_grid" using assms(1) by (simp add: float32_grid_def)
  have l: "a \<le> nearest x" using ag assms(2) False by (intro nearest_ge) auto
  show ?thesis
  proof (cases "nearest x = 2 ^ 128")
    case True
    then show ?thesis using False a assms(2) by (simp add: round32_def Let_def)
  next
    case n: False
    from l a have "nearest x \<noteq> - (2 ^ 128)" by auto
    with n False a assms(2) have r: "round32 x = Fin (nearest x)"
      by (simp add: round32_def Let_def)
    then have "nearest x \<in> float32_values" by (rule round32_Fin_float32)
    with r l show ?thesis by auto
  qed
qed

lemma round32_overflow: "2 ^ 128 \<le> x \<Longrightarrow> round32 x = PInf"
  by (simp add: round32_def)


lemma round32_of_int: "\<bar>m\<bar> < 2 ^ 24 \<Longrightarrow> round32 (real_of_int m) = Fin (real_of_int m)"
  using float32_valuesI[of m 0] by (intro round32_float32) simp

lemma round32_of_nat: "n < 2 ^ 24 \<Longrightarrow> round32 (real n) = Fin (real n)"
  using round32_of_int[of "int n"] by simp

lemma round32_0 [simp]: "round32 0 = Fin 0"
  using round32_of_int[of 0] by simp

lemma round32_1 [simp]: "round32 1 = Fin 1"
  using round32_of_int[of 1] by simp

lemma round32_numeral [simp]:
  "numeral k < (2 ^ 24 :: int) \<Longrightarrow> round32 (numeral k) = Fin (numeral k)"
  using round32_of_int[of "numeral k"] by simp

lemma round32_neg_numeral [simp]:
  "numeral k < (2 ^ 24 :: int) \<Longrightarrow> round32 (- numeral k) = Fin (- numeral k)"
  using round32_of_int[of "- numeral k"] by simp

lemma round32_m1 [simp]: "round32 (- 1) = Fin (- 1)"
  using round32_of_int[of "- 1"] by simp

lemma float32_pow2: "- 149 \<le> e \<Longrightarrow> e \<le> 127 \<Longrightarrow> power_int 2 e \<in> float32_values"
proof (cases "e \<le> 104")
  case True
  assume "- 149 \<le> e"
  with True show ?thesis using float32_valuesI[of 1 e] by simp
next
  case False
  assume "e \<le> 127"
  with False have "real_of_int (2 ^ 23) * power_int 2 (e - 23) \<in> float32_values"
    by (intro float32_valuesI) simp_all
  moreover have "real_of_int (2 ^ 23) * power_int 2 (e - 23) = power_int 2 e"
    by (simp add: power_int_diff)
  ultimately show ?thesis by simp
qed

lemma float32_eps_float32: "float32_eps \<in> float32_values"
  using float32_pow2[of "- 23"] by (simp add: float32_eps_def power_int_minus field_simps)

lemma round32_eps [simp]: "round32 float32_eps = Fin float32_eps"
  by (rule round32_float32[OF float32_eps_float32])

text \<open>
  Every real in range lies between two neighbouring points of the grid, and rounding goes
  to the nearer of them.
\<close>

lemma nearest_between:
  assumes g1: "g1 \<in> float32_grid" "g1 \<le> x" and g2: "g2 \<in> float32_grid" "x \<le> g2"
  shows "\<bar>nearest x - x\<bar> \<le> (g2 - g1) / 2"
proof -
  have r: "- (2 ^ 128) \<le> x" "x \<le> 2 ^ 128"
    using grid_range[OF g1(1)] grid_range[OF g2(1)] g1(2) g2(2) by auto
  have lo: "g1 \<le> round_down x" "round_down x \<le> x"
    using round_down_props[OF r(1)] g1 by auto
  have hi: "x \<le> round_up x" "round_up x \<le> g2"
    using round_up_props[OF r(2)] g2 by auto
  show ?thesis
    using lo hi by (auto simp: nearest_def Let_def)
qed

lemma grid_neighbours_pos:
  assumes "0 \<le> x" and "x < 2 ^ 128"
  shows "\<exists>g1\<in>float32_grid. \<exists>g2\<in>float32_grid.
           g1 \<le> x \<and> x \<le> g2 \<and> g2 - g1 \<le> 2 * (float32_u * x + float32_eta)"
proof -
  define E where "E = {e \<in> {- 149 .. 104 :: int}. x < power_int 2 (e + 24)}"
  have "E \<subseteq> {- 149 .. 104}" by (auto simp: E_def)
  then have fin: "finite E" by (rule finite_subset) simp
  have "(104 :: int) \<in> E" using assms(2) by (simp add: E_def)
  then have ne: "E \<noteq> {}" by auto
  define e where "e = Min E"
  have eE: "e \<in> E" unfolding e_def using fin ne by (rule Min_in)
  then have e: "- 149 \<le> e" "e \<le> 104" and xe: "x < power_int 2 (e + 24)"
    by (simp_all add: E_def)
  have least: "power_int 2 (e + 23) \<le> x" if "e \<noteq> - 149"
  proof (rule ccontr)
    assume "\<not> power_int 2 (e + 23) \<le> x"
    moreover have "(e - 1) + 24 = e + 23" by simp
    ultimately have "x < power_int 2 ((e - 1) + 24)" by (simp only: not_le)
    then have "e - 1 \<in> E" using e that by (simp add: E_def)
    from Min_le[OF fin this] show False by (simp add: e_def)
  qed
  define p :: real where "p = power_int 2 e"
  have ppos: "0 < p" by (simp add: p_def)
  have p24: "power_int 2 (e + 24) = 2 ^ 24 * p"
    by (simp add: p_def power_int_add)
  have p23: "power_int 2 (e + 23) = 2 ^ 23 * p"
    by (simp add: p_def power_int_add)
  define m where "m = \<lfloor>x / p\<rfloor>"
  have m0: "0 \<le> m" using assms(1) ppos by (simp add: m_def)
  have "x / p < 2 ^ 24" using xe ppos by (simp add: p24 pos_divide_less_eq)
  then have m24: "m < 2 ^ 24" by (simp add: m_def floor_less_iff)
  have lo: "real_of_int m * p \<le> x"
    using ppos by (simp add: m_def pos_le_divide_eq[symmetric])
  have hi: "x \<le> real_of_int (m + 1) * p"
  proof -
    have "x / p \<le> real_of_int (m + 1)" by (simp add: m_def)
    then show ?thesis using ppos by (simp add: pos_divide_le_eq)
  qed
  have g1: "real_of_int m * p \<in> float32_grid"
    using float32_valuesI[of m e] m0 m24 e by (simp add: p_def float32_grid_def)
  have g2: "real_of_int (m + 1) * p \<in> float32_grid"
  proof (cases "m + 1 < 2 ^ 24")
    case True
    then show ?thesis
      using float32_valuesI[of "m + 1" e] m0 e by (simp add: p_def float32_grid_def)
  next
    case False
    with m24 have m1: "m + 1 = 2 ^ 24" by simp
    have eq: "real_of_int (m + 1) * p = power_int 2 (e + 24)"
      unfolding m1 by (simp add: p24)
    show ?thesis
    proof (cases "e + 24 \<le> 127")
      case True
      then show ?thesis
        unfolding eq using float32_pow2[of "e + 24"] e by (simp add: float32_grid_def)
    next
      case False
      with e have "e + 24 = 128" by simp
      then show ?thesis unfolding eq by (simp add: float32_grid_def)
    qed
  qed
  have gap: "real_of_int (m + 1) * p - real_of_int m * p = p"
    by (simp add: algebra_simps)
  have bound: "p \<le> 2 * (float32_u * x + float32_eta)"
  proof (cases "e = - 149")
    case True
    then have "p = 2 * float32_eta"
      by (simp add: p_def float32_eta_def power_int_minus field_simps)
    moreover have "0 \<le> float32_u * x" using assms(1) by (simp add: float32_u_def)
    ultimately show ?thesis by simp
  next
    case False
    from least[OF this] have "2 ^ 23 * p \<le> x" by (simp add: p23)
    then have "p \<le> 2 * (float32_u * x)" by (simp add: float32_u_def)
    moreover have "0 \<le> float32_eta" by (simp add: float32_eta_def)
    ultimately show ?thesis by simp
  qed
  from g1 g2 lo hi gap bound show ?thesis by (metis)
qed


lemma grid_uminus: "g \<in> float32_grid \<Longrightarrow> - g \<in> float32_grid"
  using float32_values_uminus[of g] by (auto simp: float32_grid_def)

lemma grid_neighbours:
  assumes "\<bar>x\<bar> < 2 ^ 128"
  shows "\<exists>g1\<in>float32_grid. \<exists>g2\<in>float32_grid.
           g1 \<le> x \<and> x \<le> g2 \<and> g2 - g1 \<le> 2 * (float32_u * \<bar>x\<bar> + float32_eta)"
proof (cases "0 \<le> x")
  case True
  with assms grid_neighbours_pos[of x] show ?thesis by simp
next
  case False
  then have "0 \<le> - x" "- x < 2 ^ 128" using assms by simp_all
  from grid_neighbours_pos[OF this] obtain g1 g2 where
    g: "g1 \<in> float32_grid" "g2 \<in> float32_grid" "g1 \<le> - x" "- x \<le> g2"
       "g2 - g1 \<le> 2 * (float32_u * (- x) + float32_eta)"
    by blast
  have "- g2 \<in> float32_grid" "- g1 \<in> float32_grid" using g(1,2) by (simp_all add: grid_uminus)
  moreover have "- g2 \<le> x" "x \<le> - g1" using g(3,4) by simp_all
  moreover have "- g1 - (- g2) \<le> 2 * (float32_u * \<bar>x\<bar> + float32_eta)"
    using g(5) False by simp
  ultimately show ?thesis by blast
qed

lemma round32_nearest: "round32 x = Fin r \<Longrightarrow> r = nearest x"
  by (auto simp: round32_def Let_def split: if_splits)

text \<open>
  The error of rounding: at most the unit roundoff \<open>2 ^ -24\<close> relative to the rounded
  number, and at most half the smallest subnormal number where the result is subnormal.
\<close>

lemma round32_error:
  assumes "a \<in> float32_values" and "\<bar>x\<bar> \<le> a"
  shows "\<exists>r\<in>float32_values. round32 x = Fin r \<and> \<bar>r\<bar> \<le> a
           \<and> \<bar>r - x\<bar> \<le> float32_u * \<bar>x\<bar> + float32_eta"
proof -
  from round32_abs_le[OF assms] obtain r where
    r: "r \<in> float32_values" "round32 x = Fin r" "\<bar>r\<bar> \<le> a" by blast
  have "\<bar>x\<bar> < 2 ^ 128" using float32_values_lt[OF assms(1)] assms(2) by simp
  from grid_neighbours[OF this] obtain g1 g2 where
    g: "g1 \<in> float32_grid" "g2 \<in> float32_grid" "g1 \<le> x" "x \<le> g2"
       "g2 - g1 \<le> 2 * (float32_u * \<bar>x\<bar> + float32_eta)"
    by blast
  have "\<bar>nearest x - x\<bar> \<le> (g2 - g1) / 2"
    using g(1,3) g(2,4) by (rule nearest_between)
  with g(5) have "\<bar>nearest x - x\<bar> \<le> float32_u * \<bar>x\<bar> + float32_eta" by simp
  with r round32_nearest[OF r(2)] show ?thesis by blast
qed

section \<open>Properties of the Return Standardizer\<close>

lemma float32_eps_pos: "0 < float32_eps"
  by (simp add: float32_eps_def)

lemmas standardise_defs = standardise_returns_def t_std_def t_mean_def t_sum_def
  torch_tensor_def fsub32_def fadd32_def fmul32_def fdiv32_def fsqrt32_def fsub_def

lemma standardise_singleton: "standardise_returns [x] = [NaN]"
proof (cases "round32 x")
  case (Fin y)
  then have "y \<in> float32_values" by (rule round32_Fin_float32)
  then have y: "round32 y = Fin y" by (rule round32_float32)
  show ?thesis by (simp add: standardise_defs Fin y)
next
  case PInf
  then show ?thesis by (simp add: standardise_defs)
next
  case MInf
  then show ?thesis by (simp add: standardise_defs)
next
  case NaN
  then show ?thesis by (simp add: round32_def Let_def split: if_splits)
qed

lemma t_std_singleton: "t_std (torch_tensor [x]) = NaN"
proof (cases "round32 x")
  case (Fin y)
  then have "y \<in> float32_values" by (rule round32_Fin_float32)
  then have y: "round32 y = Fin y" by (rule round32_float32)
  show ?thesis by (simp add: standardise_defs Fin y)
next
  case PInf
  then show ?thesis by (simp add: standardise_defs)
next
  case MInf
  then show ?thesis by (simp add: standardise_defs)
next
  case NaN
  then show ?thesis by (simp add: round32_def Let_def split: if_splits)
qed

text \<open>
  Claim C9. For a single-element input the Bessel-corrected standard deviation divides
  \<open>0\<close> by \<open>T - 1 = 0\<close> and is NaN, and so is the output: not a finite number. This holds
  for every input value, also one that rounds to an infinity.
\<close>

theorem standardise_returns_single:
  "standardise_returns [x] = [NaN] \<and> t_std (torch_tensor [x]) = NaN
   \<and> \<not> list_all is_finite (standardise_returns [x])"
  by (simp add: standardise_singleton t_std_singleton)

theorem standardise_returns_single_witness:
  "standardise_returns [100] = [NaN] \<and> \<not> is_finite (hd (standardise_returns [100]))"
  using standardise_returns_single[of 100] by simp

text \<open>
  Sums of squares, their quotients by a positive number and their square roots are never
  negative and never NaN: they are a non-negative number or \<open>+inf\<close>.
\<close>

lemma round32_nonneg: "0 \<le> x \<Longrightarrow> pos_or_inf (round32 x)"
  using round32_ge[OF zero_float32, of x] by auto

lemma pos_or_inf_fadd32: "pos_or_inf a \<Longrightarrow> pos_or_inf b \<Longrightarrow> pos_or_inf (fadd32 a b)"
  by (cases a; cases b) (simp_all add: fadd32_def round32_nonneg)

lemma pos_or_inf_t_sum:
  "pos_or_inf a \<Longrightarrow> \<forall>x\<in>set t. pos_or_inf x \<Longrightarrow> pos_or_inf (foldl fadd32 a t)"
  by (induction t arbitrary: a) (simp_all add: pos_or_inf_fadd32)

lemma pos_or_inf_fdiv32: "pos_or_inf a \<Longrightarrow> 0 < b \<Longrightarrow> pos_or_inf (fdiv32 a (Fin b))"
  by (cases a) (simp_all add: fdiv32_def round32_nonneg)

lemma pos_or_inf_fsqrt32: "pos_or_inf a \<Longrightarrow> pos_or_inf (fsqrt32 a)"
  by (cases a) (simp_all add: fsqrt32_def round32_nonneg)

lemma pos_or_inf_square: "pos_or_inf (fmul32 (Fin d) (Fin d))"
  by (simp add: fmul32_def round32_nonneg)

text \<open>
  The left-to-right sum of floats of magnitude at most \<open>B\<close> stays finite as long as the
  multiples of \<open>B\<close> it is bounded by are representable.
\<close>

lemma bounded_sum:
  assumes rep: "\<And>k. k < 2 ^ 24 \<Longrightarrow> real k * B \<in> float32_values"
  shows "\<forall>y\<in>set ys. \<bar>y\<bar> \<le> B \<Longrightarrow> \<bar>s\<bar> \<le> real j * B \<Longrightarrow> j + length ys < 2 ^ 24 \<Longrightarrow>
   \<exists>S. foldl fadd32 (Fin s) (map Fin ys) = Fin S \<and> \<bar>S\<bar> \<le> real (j + length ys) * B"
proof (induction ys arbitrary: s j)
  case Nil
  then show ?case by simp
next
  case (Cons y ys)
  have y: "\<bar>y\<bar> \<le> B" using Cons.prems(1) by simp
  have "\<bar>s + y\<bar> \<le> real j * B + B" using y Cons.prems(2) by linarith
  then have b: "\<bar>s + y\<bar> \<le> real (Suc j) * B" by (simp add: algebra_simps)
  have "real (Suc j) * B \<in> float32_values"
    using Cons.prems(3) by (intro rep) simp
  from round32_abs_le[OF this b] obtain s' where
    s': "round32 (s + y) = Fin s'" "\<bar>s'\<bar> \<le> real (Suc j) * B"
    by blast
  have step: "fadd32 (Fin s) (Fin y) = Fin s'" by (simp add: fadd32_def s'(1))
  have "\<exists>S. foldl fadd32 (Fin s') (map Fin ys) = Fin S
       \<and> \<bar>S\<bar> \<le> real (Suc j + length ys) * B"
    using Cons.prems(1,3) s'(2) by (intro Cons.IH) simp_all
  then show ?case by (simp add: step)
qed

text \<open>
  Every element of the standardised tensor is finite when the input is bounded by
  \<open>2 ^ 103\<close> and shorter than \<open>2 ^ 24\<close>.
\<close>

lemma standardise_bounded:
  assumes n: "2 \<le> length xs" "length xs < 2 ^ 24"
    and b: "\<forall>x\<in>set xs. \<bar>x\<bar> \<le> 2 ^ 103"
  shows "(fadd32 (t_std (torch_tensor xs)) (round32 float32_eps) = PInf
          \<or> (\<exists>D. fadd32 (t_std (torch_tensor xs)) (round32 float32_eps) = Fin D
                \<and> float32_eps \<le> D))
       \<and> (\<forall>y\<in>set (standardise_returns xs). \<exists>a. y = Fin a \<and> \<bar>a\<bar> \<le> 2 ^ 127)"
proof -
  let ?n = "length xs"
  define B :: real where "B = 2 ^ 103"
  have B: "B \<in> float32_values" and B2: "2 * B \<in> float32_values"
    and Btop: "2 * B / float32_eps \<in> float32_values"
    and Bk: "\<And>k. k < 2 ^ 24 \<Longrightarrow> real k * B \<in> float32_values"
  proof -
    show "B \<in> float32_values" using float32_pow2[of 103] by (simp add: B_def)
    show "2 * B \<in> float32_values" using float32_pow2[of 104] by (simp add: B_def)
    show "2 * B / float32_eps \<in> float32_values"
      using float32_pow2[of 127] by (simp add: B_def float32_eps_def)
    show "real k * B \<in> float32_values" if "k < 2 ^ 24" for k
      using float32_valuesI[of "int k" 103] that by (simp add: B_def)
  qed
  have Btop': "2 * B / float32_eps = 2 ^ 127" by (simp add: B_def float32_eps_def)
  have Bpos: "0 < B" by (simp add: B_def)
  have b': "\<forall>x\<in>set xs. \<bar>x\<bar> \<le> B" using b by (simp add: B_def)
  have "\<forall>x\<in>set xs. \<exists>y. round32 x = Fin y \<and> \<bar>y\<bar> \<le> B"
    using b' round32_abs_le[OF B] by blast
  then obtain f where f: "\<forall>x\<in>set xs. round32 x = Fin (f x) \<and> \<bar>f x\<bar> \<le> B"
    by metis
  define ys where "ys = map f xs"
  have t: "torch_tensor xs = map Fin ys"
    using f by (simp add: torch_tensor_def ys_def)
  have ys: "\<forall>y\<in>set ys. \<bar>y\<bar> \<le> B" "length ys = ?n" using f by (auto simp: ys_def)
  from bounded_sum[of B ys 0 0, OF Bk] ys n obtain S where
    S: "t_sum (map Fin ys) = Fin S" "\<bar>S\<bar> \<le> real ?n * B"
    by (auto simp: t_sum_def)
  have rn: "round32 (real ?n) = Fin (real ?n)" using n by (intro round32_of_nat)
  have npos: "0 < real ?n" using n(1) by linarith
  have "\<bar>S / real ?n\<bar> = \<bar>S\<bar> / real ?n" by simp
  also have "\<dots> \<le> B" using S(2) npos by (simp add: pos_divide_le_eq mult.commute)
  finally have "\<bar>S / real ?n\<bar> \<le> B" .
  from round32_abs_le[OF B this] obtain m where
    m: "round32 (S / real ?n) = Fin m" "\<bar>m\<bar> \<le> B" by blast
  have mean: "t_mean (map Fin ys) = Fin m"
    using npos by (simp add: t_mean_def S(1) ys(2) rn fdiv32_def m(1))
  have dev: "\<exists>d. fsub32 (Fin y) (Fin m) = Fin d \<and> \<bar>d\<bar> \<le> 2 * B" if "y \<in> set ys" for y
  proof -
    have "\<bar>y\<bar> \<le> B" using that ys(1) by blast
    then have "\<bar>y - m\<bar> \<le> 2 * B" using m(2) by linarith
    from round32_abs_le[OF B2 this] show ?thesis
      by (auto simp: fsub32_def fsub_def)
  qed
  have sq: "pos_or_inf q"
    if "q \<in> set (map (\<lambda>x. fmul32 (fsub32 x (Fin m)) (fsub32 x (Fin m))) (map Fin ys))" for q
  proof -
    from that obtain y where "y \<in> set ys" "q = fmul32 (fsub32 (Fin y) (Fin m)) (fsub32 (Fin y) (Fin m))"
      by auto
    with dev[of y] show ?thesis using pos_or_inf_square by auto
  qed
  have rn1: "round32 (real (?n - 1)) = Fin (real (?n - 1))" using n by (intro round32_of_nat) simp
  have n1pos: "0 < real (?n - 1)" using n(1) by linarith
  have "pos_or_inf (t_sum (map (\<lambda>x. fmul32 (fsub32 x (Fin m)) (fsub32 x (Fin m))) (map Fin ys)))"
    unfolding t_sum_def using sq by (intro pos_or_inf_t_sum) simp_all
  then have std: "pos_or_inf (t_std (map Fin ys))"
    unfolding t_std_def Let_def mean length_map ys(2) rn1
    using n1pos by (intro pos_or_inf_fsqrt32 pos_or_inf_fdiv32)
  have den: "fadd32 (t_std (map Fin ys)) (Fin float32_eps) = PInf
      \<or> (\<exists>D. fadd32 (t_std (map Fin ys)) (Fin float32_eps) = Fin D \<and> float32_eps \<le> D)"
  proof (cases "t_std (map Fin ys)")
    case (Fin a)
    with std have "float32_eps \<le> a + float32_eps" by simp
    from round32_ge[OF float32_eps_float32 this] show ?thesis
      by (auto simp: Fin fadd32_def)
  qed (use std in \<open>simp_all add: fadd32_def\<close>)
  have out: "\<exists>a. fdiv32 (fsub32 (Fin y) (Fin m)) (fadd32 (t_std (map Fin ys)) (Fin float32_eps))
       = Fin a \<and> \<bar>a\<bar> \<le> 2 ^ 127" if "y \<in> set ys" for y
  proof -
    from dev[OF that] obtain d where d: "fsub32 (Fin y) (Fin m) = Fin d" "\<bar>d\<bar> \<le> 2 * B" by blast
    from den show ?thesis
    proof
      assume "fadd32 (t_std (map Fin ys)) (Fin float32_eps) = PInf"
      then show ?thesis by (simp add: d(1) fdiv32_def)
    next
      assume "\<exists>D. fadd32 (t_std (map Fin ys)) (Fin float32_eps) = Fin D \<and> float32_eps \<le> D"
      then obtain D where D: "fadd32 (t_std (map Fin ys)) (Fin float32_eps) = Fin D"
        "float32_eps \<le> D" by blast
      have Dpos: "0 < D" using D(2) float32_eps_pos by linarith
      have "\<bar>d / D\<bar> = \<bar>d\<bar> / D" using Dpos by simp
      also have "\<dots> \<le> 2 * B / float32_eps"
        using d(2) D(2) float32_eps_pos Dpos by (intro frac_le) simp_all
      finally have "\<bar>d / D\<bar> \<le> 2 * B / float32_eps" .
      from round32_abs_le[OF Btop this] obtain a where
        "round32 (d / D) = Fin a" "\<bar>a\<bar> \<le> 2 * B / float32_eps" by blast
      then show ?thesis
        using Dpos unfolding Btop' by (auto simp: d(1) D(1) fdiv32_def)
    qed
  qed
  have sr: "standardise_returns xs
      = map (\<lambda>x. fdiv32 (fsub32 x (Fin m)) (fadd32 (t_std (map Fin ys)) (Fin float32_eps)))
          (map Fin ys)"
    by (simp add: standardise_returns_def Let_def t mean)
  have "\<forall>y\<in>set (standardise_returns xs). \<exists>a. y = Fin a \<and> \<bar>a\<bar> \<le> 2 ^ 127"
    unfolding sr using out by auto
  with den show ?thesis unfolding t round32_eps by blast
qed

text \<open>
  A value of at least \<open>2 ^ 127\<close> is finite in \<open>float32\<close>, and the sum of two of them
  is not: the mean of the pair is \<open>+inf\<close>, both deviations are \<open>-inf\<close>, the standard
  deviation is \<open>+inf\<close> and the quotient \<open>-inf / +inf\<close> is NaN.
\<close>

lemma float32_max: "(2 ^ 24 - 1) * 2 ^ 104 \<in> float32_values"
  using float32_valuesI[of "2 ^ 24 - 1" 104] by simp

lemma overflow_pair:
  assumes "2 ^ 127 \<le> v" and "v \<le> (2 ^ 24 - 1) * 2 ^ 104"
  shows "standardise_returns [v, v] = [NaN, NaN]"
proof -
  have "\<bar>v\<bar> \<le> (2 ^ 24 - 1) * 2 ^ 104" using assms by simp
  from round32_abs_le[OF float32_max this] obtain y where
    y: "y \<in> float32_values" "round32 v = Fin y" by blast
  have "2 ^ 127 \<in> float32_values" using float32_pow2[of 127] by simp
  from round32_ge[OF this assms(1)] y(2) have ge: "2 ^ 127 \<le> y" by simp
  have ry: "round32 y = Fin y" using y(1) by (rule round32_float32)
  have "2 ^ 128 \<le> 2 * y" using ge by simp
  then have ov: "round32 (2 * y) = PInf" by (rule round32_overflow)
  show ?thesis
    by (simp add: standardise_defs Let_def y(2) ry ov)
qed

text \<open>
  Claim C3 as stated fails for a constant sequence whose sum overflows \<open>float32\<close>: for
  \<open>[3e38, 3e38]\<close> the output is \<open>[nan, nan]\<close>.
\<close>

theorem standardise_returns_constant_counterexample:
  "standardise_returns (replicate 2 (3 * 10 ^ 38)) = [NaN, NaN]
   \<and> \<not> list_all is_finite (standardise_returns (replicate 2 (3 * 10 ^ 38)))"
proof -
  have "standardise_returns [3 * 10 ^ 38, 3 * 10 ^ 38] = [NaN, NaN]"
    by (rule overflow_pair) simp_all
  then show ?thesis by (simp add: numeral_2_eq_2)
qed

lemma standardise_hundreds: "standardise_returns [100, 100, 100] = [Fin 0, Fin 0, Fin 0]"
  using float32_eps_pos by (simp add: standardise_defs Let_def)

text \<open>
  Claim C3, as amended. For a constant input of length \<open>n\<close> with \<open>2 \<le> n < 2 ^ 24\<close> and
  a value of magnitude at most \<open>2 ^ 103\<close>, nothing is divided by zero: the denominator is
  at least the machine epsilon, which is positive, or it is \<open>+inf\<close> (the other two
  divisions are by the length and by the length less one, both non-zero). The output is
  finite, every entry of magnitude at most \<open>2 ^ 127\<close>: no NaN and no infinity.
\<close>

theorem standardise_returns_constant:
  assumes "2 \<le> n" and "n < 2 ^ 24" and "\<bar>v\<bar> \<le> 2 ^ 103"
  shows "(fadd32 (t_std (torch_tensor (replicate n v))) (round32 float32_eps) = PInf
          \<or> (\<exists>D. fadd32 (t_std (torch_tensor (replicate n v))) (round32 float32_eps) = Fin D
                \<and> float32_eps \<le> D))
       \<and> 0 < float32_eps
       \<and> list_all is_finite (standardise_returns (replicate n v))
       \<and> (\<forall>y\<in>set (standardise_returns (replicate n v)). \<exists>a. y = Fin a \<and> \<bar>a\<bar> \<le> 2 ^ 127)"
proof -
  have "2 \<le> length (replicate n v)" "length (replicate n v) < 2 ^ 24"
    "\<forall>x\<in>set (replicate n v). \<bar>x\<bar> \<le> 2 ^ 103"
    using assms by simp_all
  from standardise_bounded[OF this] float32_eps_pos show ?thesis
    by (auto simp: list_all_iff)
qed

theorem standardise_returns_constant_witness:
  "(2 :: nat) \<le> 3 \<and> (3 :: nat) < 2 ^ 24 \<and> \<bar>100 :: real\<bar> \<le> 2 ^ 103
   \<and> standardise_returns (replicate 3 100) = [Fin 0, Fin 0, Fin 0]
   \<and> list_all is_finite (standardise_returns (replicate 3 100))"
  using standardise_returns_constant[of 3 100] standardise_hundreds
  by (simp add: numeral_3_eq_3)

text \<open>
  Where the spread of the input is of the order of the epsilon, the standard deviation of
  the output is far from \<open>1\<close>: for \<open>[0, eps, 2 * eps]\<close> the output is \<open>[-1/2, 0, 1/2]\<close>,
  whose standard deviation is \<open>1/2\<close>. Every number in this run is zero or a small
  multiple of a power of two, so \<open>float32\<close> computes it without rounding.
\<close>

lemma round32_half [simp]: "round32 (1 / 2) = Fin (1 / 2)"
  using round32_float32[OF float32_pow2[of "- 1"]] by (simp add: power_int_minus)

lemma round32_quarter [simp]: "round32 (1 / 4) = Fin (1 / 4)"
  using round32_float32[OF float32_pow2[of "- 2"]] by (simp add: power_int_minus)

lemma round32_eps2 [simp]: "round32 (2 * float32_eps) = Fin (2 * float32_eps)"
  using round32_float32[OF float32_pow2[of "- 22"]]
  by (simp add: power_int_minus float32_eps_def field_simps)

lemma round32_eps3 [simp]: "round32 (3 * float32_eps) = Fin (3 * float32_eps)"
  using round32_float32[OF float32_valuesI[of 3 "- 23"]]
  by (simp add: power_int_minus float32_eps_def field_simps)

lemma round32_eps_sq [simp]: "round32 (float32_eps * float32_eps) = Fin (float32_eps * float32_eps)"
  using round32_float32[OF float32_pow2[of "- 46"]]
  by (simp add: power_int_minus float32_eps_def field_simps)

lemma round32_eps_sq2 [simp]:
  "round32 (2 * (float32_eps * float32_eps)) = Fin (2 * (float32_eps * float32_eps))"
  using round32_float32[OF float32_pow2[of "- 45"]]
  by (simp add: power_int_minus float32_eps_def field_simps)

lemma round32_neg_eps [simp]: "round32 (- float32_eps) = Fin (- float32_eps)"
  by (rule round32_float32[OF float32_values_uminus[OF float32_eps_float32]])

lemma round32_neg_half [simp]: "round32 (- (1 / 2)) = Fin (- (1 / 2))"
  using round32_float32[OF float32_values_uminus[OF float32_pow2[of "- 1"]]]
  by (simp add: power_int_minus)

lemma standardise_eps_example:
  "standardise_returns [0, float32_eps, 2 * float32_eps] = [Fin (- 1 / 2), Fin 0, Fin (1 / 2)]"
proof -
  have e: "float32_eps \<noteq> 0" "0 < float32_eps" "\<not> float32_eps < 0"
    using float32_eps_pos by simp_all
  have sq: "\<bar>float32_eps\<bar> = float32_eps"
    using float32_eps_pos by simp
  show ?thesis
    by (simp add: standardise_defs Let_def e sq)
qed


lemma t_std_halves: "t_std [Fin (- 1 / 2), Fin 0, Fin (1 / 2)] = Fin (1 / 2)"
proof -
  have sq: "sqrt (1 / 4) = 1 / 2"
    using real_sqrt_abs2[of "1 / 2"] by (simp add: power2_eq_square)
  show ?thesis
    by (simp add: standardise_defs Let_def sq)
qed

lemma sample_std_halves: "sample_std [- 1 / 2, 0, 1 / 2] = 1 / 2"
proof -
  have "sample_std [- 1 / 2, 0, 1 / 2] = sqrt ((1 / 2) * (1 / 2))"
    by (simp add: sample_std_def sample_mean_def)
  also have "\<dots> = \<bar>1 / 2\<bar>" by (simp only: real_sqrt_abs2)
  finally show ?thesis by simp
qed

text \<open>
  Claim C4 as stated fails for an input whose spread is of the order of the epsilon: the
  output for \<open>[0, eps, 2 * eps]\<close> has standard deviation \<open>1/2\<close>, in exact arithmetic and as
  \<open>std()\<close> computes it, because the epsilon is added to the denominator for every input.
\<close>

theorem standardise_returns_moments_counterexample:
  "(0 :: real) \<noteq> float32_eps
   \<and> standardise_returns [0, float32_eps, 2 * float32_eps] = map Fin [- 1 / 2, 0, 1 / 2]
   \<and> sample_std [- 1 / 2, 0, 1 / 2] = 1 / 2
   \<and> t_std (standardise_returns [0, float32_eps, 2 * float32_eps]) = Fin (1 / 2)
   \<and> \<not> within_tolerance (1 / 4) (t_std (standardise_returns [0, float32_eps, 2 * float32_eps])) 1"
proof -
  have out: "standardise_returns [0, float32_eps, 2 * float32_eps] = map Fin [- 1 / 2, 0, 1 / 2]"
    using standardise_eps_example by simp
  have sd: "t_std (standardise_returns [0, float32_eps, 2 * float32_eps]) = Fin (1 / 2)"
    unfolding standardise_eps_example by (rule t_std_halves)
  have "\<not> within_tolerance (1 / 4) (Fin (1 / 2)) 1"
    by (simp add: within_tolerance_def)
  moreover have "(0 :: real) \<noteq> float32_eps" using float32_eps_pos by simp
  ultimately show ?thesis using out sd sample_std_halves by (simp only: simp_thms)
qed

subsection \<open>Rounding errors of the standardised output\<close>

text \<open>
  Norms of lists: the triangle inequality, and what it gives for the mean and the
  standard deviation of two lists whose entries are close.
\<close>

lemma sum_list_sq_nonneg: "0 \<le> sum_list (map (\<lambda>x. x * x) (xs :: real list))"
  by (rule sum_list_nonneg) auto

lemma l2norm_nonneg: "0 \<le> l2norm xs"
  by (simp add: l2norm_def sum_list_sq_nonneg)

lemma l2norm_Cons: "l2norm (x # xs) = sqrt (x\<^sup>2 + (l2norm xs)\<^sup>2)"
  by (simp add: l2norm_def sum_list_sq_nonneg power2_eq_square)

lemma l2norm_triangle:
  "l2norm (map (\<lambda>x. f x + g x) xs) \<le> l2norm (map f xs) + l2norm (map g xs)"
proof (induction xs)
  case Nil
  then show ?case by (simp add: l2norm_def)
next
  case (Cons a xs)
  let ?F = "l2norm (map f xs)" and ?G = "l2norm (map g xs)"
  let ?H = "l2norm (map (\<lambda>x. f x + g x) xs)"
  have "?H\<^sup>2 \<le> (?F + ?G)\<^sup>2"
    using Cons.IH l2norm_nonneg[of "map (\<lambda>x. f x + g x) xs"] by (intro power_mono) simp_all
  then have "sqrt ((f a + g a)\<^sup>2 + ?H\<^sup>2) \<le> sqrt ((f a + g a)\<^sup>2 + (?F + ?G)\<^sup>2)"
    by simp
  also have "\<dots> \<le> sqrt ((f a)\<^sup>2 + ?F\<^sup>2) + sqrt ((g a)\<^sup>2 + ?G\<^sup>2)"
    by (rule real_sqrt_sum_squares_triangle_ineq)
  finally show ?case by (simp add: l2norm_Cons)
qed

lemma l2norm_diff:
  "\<bar>l2norm (map f xs) - l2norm (map g xs)\<bar> \<le> l2norm (map (\<lambda>x. f x - g x) xs)"
proof -
  have m: "l2norm (map (\<lambda>x. g x - f x) xs) = l2norm (map (\<lambda>x. f x - g x) xs)"
  proof -
    have "(\<lambda>x. (g x - f x) * (g x - f x)) = (\<lambda>x. (f x - g x) * (f x - g x))"
      by (rule ext) (simp add: algebra_simps)
    then show ?thesis by (simp add: l2norm_def comp_def)
  qed
  have "l2norm (map (\<lambda>x. g x + (f x - g x)) xs) \<le> l2norm (map g xs) + l2norm (map (\<lambda>x. f x - g x) xs)"
    by (rule l2norm_triangle)
  moreover
  have "l2norm (map (\<lambda>x. f x + (g x - f x)) xs) \<le> l2norm (map f xs) + l2norm (map (\<lambda>x. g x - f x) xs)"
    by (rule l2norm_triangle)
  ultimately show ?thesis by (simp add: m)
qed

lemma l2norm_bound:
  assumes "\<forall>x\<in>set xs. \<bar>h x\<bar> \<le> E"
  shows "l2norm (map h xs) \<le> sqrt (real (length xs)) * E"
proof -
  have E: "0 \<le> E \<or> xs = []" using assms by (cases xs) auto
  have "sum_list (map (\<lambda>x. h x * h x) xs) \<le> sum_list (map (\<lambda>x. E * E) xs)"
  proof (rule sum_list_mono)
    fix x assume "x \<in> set xs"
    then have "\<bar>h x\<bar> \<le> E" using assms by blast
    then have "\<bar>h x\<bar> * \<bar>h x\<bar> \<le> E * E" by (intro mult_mono) simp_all
    then show "h x * h x \<le> E * E" by (simp add: abs_mult_self_eq)
  qed
  also have "\<dots> = real (length xs) * (E * E)" by (simp add: sum_list_triv)
  finally have "l2norm (map h xs) \<le> sqrt (real (length xs) * (E * E))"
    by (simp add: l2norm_def comp_def)
  also have "\<dots> = sqrt (real (length xs)) * \<bar>E\<bar>" by (simp add: real_sqrt_mult)
  finally show ?thesis using E by (auto simp: l2norm_def)
qed


lemma sample_std_l2norm:
  "sample_std (map F ys)
     = l2norm (map (\<lambda>y. F y - sample_mean (map F ys)) ys) / sqrt (real (length ys - 1))"
  by (simp add: sample_std_def l2norm_def comp_def real_sqrt_divide)

lemma sum_list_centred:
  "sum_list (map (\<lambda>x. (h x - c) * (h x - c)) xs)
     = sum_list (map (\<lambda>x. h x * h x) xs) - 2 * c * sum_list (map h xs)
       + real (length xs) * (c * c)"
  for c :: real
  by (induction xs) (simp_all add: algebra_simps)

lemma l2norm_centred:
  assumes "xs \<noteq> []"
  shows "l2norm (map (\<lambda>x. h x - sample_mean (map h xs)) xs) \<le> l2norm (map h xs)"
proof -
  let ?c = "sample_mean (map h xs)"
  have n: "real (length xs) \<noteq> 0" using assms by simp
  have s: "sum_list (map h xs) = real (length xs) * ?c"
    using n by (simp add: sample_mean_def)
  have "sum_list (map (\<lambda>x. (h x - ?c) * (h x - ?c)) xs)
      = sum_list (map (\<lambda>x. h x * h x) xs) - real (length xs) * (?c * ?c)"
    unfolding sum_list_centred s by (simp add: algebra_simps)
  also have "\<dots> \<le> sum_list (map (\<lambda>x. h x * h x) xs)" by simp
  finally show ?thesis by (simp add: l2norm_def comp_def)
qed

lemma sample_mean_diff:
  "sample_mean (map F ys) - sample_mean (map G ys) = sample_mean (map (\<lambda>y. F y - G y) ys)"
  by (simp add: sample_mean_def sum_list_subtractf diff_divide_distrib)

lemma sample_mean_bound:
  assumes "ys \<noteq> []" and "\<forall>y\<in>set ys. \<bar>H y\<bar> \<le> E"
  shows "\<bar>sample_mean (map H ys)\<bar> \<le> E"
proof -
  have n: "0 < real (length ys)" using assms(1) by simp
  have "\<bar>sum_list (map H ys)\<bar> \<le> sum_list (map (\<lambda>y. \<bar>H y\<bar>) ys)"
    using sum_list_abs[of "map H ys"] by (simp add: comp_def)
  also have "\<dots> \<le> sum_list (map (\<lambda>y. E) ys)"
    using assms(2) by (intro sum_list_mono) simp
  also have "\<dots> = real (length ys) * E" by (simp add: sum_list_triv)
  finally have "\<bar>sum_list (map H ys)\<bar> / real (length ys) \<le> E"
    using n by (simp add: pos_divide_le_eq mult.commute)
  then show ?thesis by (simp add: sample_mean_def)
qed

text \<open>
  Mean and standard deviation are stable: entries that move by at most \<open>E\<close> move the mean
  by at most \<open>E\<close> and the standard deviation by at most \<open>3/2 * E\<close>.
\<close>

lemma sample_moments_perturb:
  assumes "2 \<le> length ys" and "\<forall>y\<in>set ys. \<bar>F y - G y\<bar> \<le> E"
  shows "\<bar>sample_mean (map F ys) - sample_mean (map G ys)\<bar> \<le> E"
    and "\<bar>sample_std (map F ys) - sample_std (map G ys)\<bar> \<le> 3 / 2 * E"
proof -
  from assms(1) have ne: "ys \<noteq> []" by auto
  let ?N = "real (length ys)"
  let ?H = "\<lambda>y. F y - G y"
  let ?mF = "sample_mean (map F ys)" and ?mG = "sample_mean (map G ys)"
  show "\<bar>?mF - ?mG\<bar> \<le> E"
    unfolding sample_mean_diff using ne assms(2) by (rule sample_mean_bound)
  have E: "0 \<le> E" using assms(2) ne by (cases ys) auto
  have "\<bar>l2norm (map (\<lambda>y. F y - ?mF) ys) - l2norm (map (\<lambda>y. G y - ?mG) ys)\<bar>
      \<le> l2norm (map (\<lambda>y. (F y - ?mF) - (G y - ?mG)) ys)"
    by (rule l2norm_diff)
  also have "(\<lambda>y. (F y - ?mF) - (G y - ?mG)) = (\<lambda>y. ?H y - sample_mean (map ?H ys))"
    by (rule ext) (simp add: sample_mean_diff[symmetric])
  also have "l2norm (map (\<lambda>y. ?H y - sample_mean (map ?H ys)) ys) \<le> l2norm (map ?H ys)"
    using ne by (rule l2norm_centred)
  also have "\<dots> \<le> sqrt ?N * E" using assms(2) by (rule l2norm_bound)
  finally have d: "\<bar>l2norm (map (\<lambda>y. F y - ?mF) ys) - l2norm (map (\<lambda>y. G y - ?mG) ys)\<bar>
      \<le> sqrt ?N * E" .
  have n1: "0 < real (length ys - 1)" using assms(1) by simp
  then have r1: "0 < sqrt (real (length ys - 1))" by simp
  have "?N \<le> (3 / 2)\<^sup>2 * real (length ys - 1)"
    using assms(1) by (simp add: power2_eq_square of_nat_diff)
  then have "sqrt ?N \<le> sqrt ((3 / 2)\<^sup>2 * real (length ys - 1))" by simp
  also have "\<dots> = 3 / 2 * sqrt (real (length ys - 1))"
    by (simp only: real_sqrt_mult) simp
  finally have rt: "sqrt ?N \<le> 3 / 2 * sqrt (real (length ys - 1))" .
  have "\<bar>sample_std (map F ys) - sample_std (map G ys)\<bar>
      = \<bar>l2norm (map (\<lambda>y. F y - ?mF) ys) - l2norm (map (\<lambda>y. G y - ?mG) ys)\<bar>
          / sqrt (real (length ys - 1))"
    using r1 by (simp add: sample_std_l2norm diff_divide_distrib[symmetric])
  also have "\<dots> \<le> sqrt ?N * E / sqrt (real (length ys - 1))"
    using d r1 by (simp add: divide_right_mono)
  also have "\<dots> \<le> (3 / 2 * sqrt (real (length ys - 1))) * E / sqrt (real (length ys - 1))"
    using rt E r1 by (intro divide_right_mono mult_right_mono) simp_all
  also have "\<dots> = 3 / 2 * E" using r1 by simp
  finally show "\<bar>sample_std (map F ys) - sample_std (map G ys)\<bar> \<le> 3 / 2 * E" .
qed

text \<open>
  Sums added in \<open>float32\<close> from left to right.
\<close>

lemma float32_u_pos: "0 < float32_u" and float32_u_le: "float32_u \<le> 1"
  by (simp_all add: float32_u_def)

lemma float32_eta_pos: "0 < float32_eta"
  by (simp add: float32_eta_def)

text \<open>
  The error of a sum added from left to right, for terms of magnitude at most \<open>B\<close>.
\<close>

lemma sum_error:
  assumes rep: "\<And>k. k < 2 ^ 24 \<Longrightarrow> real k * B \<in> float32_values"
  shows "\<forall>y\<in>set ys. \<bar>y\<bar> \<le> B \<Longrightarrow> \<bar>s\<bar> \<le> real j * B \<Longrightarrow> j + length ys < 2 ^ 24 \<Longrightarrow>
   \<exists>S. foldl fadd32 (Fin s) (map Fin ys) = Fin S \<and> \<bar>S\<bar> \<le> real (j + length ys) * B
      \<and> \<bar>S - (s + sum_list ys)\<bar>
          \<le> real (length ys) * (float32_u * (real (j + length ys) * B) + float32_eta)"
proof (induction ys arbitrary: s j)
  case Nil
  then show ?case by simp
next
  case (Cons y ys)
  let ?k = "j + length (y # ys)"
  let ?e = "float32_u * (real ?k * B) + float32_eta"
  have y: "\<bar>y\<bar> \<le> B" using Cons.prems(1) by simp
  then have B: "0 \<le> B" by simp
  have "\<bar>s + y\<bar> \<le> real j * B + B" using y Cons.prems(2) by linarith
  then have b: "\<bar>s + y\<bar> \<le> real (Suc j) * B" by (simp add: algebra_simps)
  have "real (Suc j) * B \<in> float32_values"
    using Cons.prems(3) by (intro rep) simp
  from round32_error[OF this b] obtain s' where
    s': "round32 (s + y) = Fin s'" "\<bar>s'\<bar> \<le> real (Suc j) * B"
        "\<bar>s' - (s + y)\<bar> \<le> float32_u * \<bar>s + y\<bar> + float32_eta"
    by blast
  have step: "fadd32 (Fin s) (Fin y) = Fin s'" by (simp add: fadd32_def s'(1))
  have "real (Suc j) * B \<le> real ?k * B" using B by (intro mult_right_mono) simp_all
  with b have "float32_u * \<bar>s + y\<bar> \<le> float32_u * (real ?k * B)"
    using float32_u_pos by (intro mult_left_mono) simp_all
  with s'(3) have e1: "\<bar>s' - (s + y)\<bar> \<le> ?e" by linarith
  have "\<exists>S. foldl fadd32 (Fin s') (map Fin ys) = Fin S
       \<and> \<bar>S\<bar> \<le> real (Suc j + length ys) * B
       \<and> \<bar>S - (s' + sum_list ys)\<bar>
          \<le> real (length ys) * (float32_u * (real (Suc j + length ys) * B) + float32_eta)"
    using Cons.prems(1,3) s'(2) by (intro Cons.IH) simp_all
  then obtain S where S: "foldl fadd32 (Fin s') (map Fin ys) = Fin S"
    "\<bar>S\<bar> \<le> real ?k * B" "\<bar>S - (s' + sum_list ys)\<bar> \<le> real (length ys) * ?e"
    by auto
  have "\<bar>S - (s + sum_list (y # ys))\<bar> \<le> \<bar>S - (s' + sum_list ys)\<bar> + \<bar>s' - (s + y)\<bar>"
    by simp
  also have "\<dots> \<le> real (length ys) * ?e + ?e" using S(3) e1 by linarith
  also have "\<dots> = real (length (y # ys)) * ?e" by (simp add: algebra_simps)
  finally have "\<bar>S - (s + sum_list (y # ys))\<bar> \<le> real (length (y # ys)) * ?e" .
  with S(1,2) show ?case by (simp add: step)
qed


lemma round32_error_nonneg:
  assumes "a \<in> float32_values" and "0 \<le> x" and "x \<le> a"
  shows "\<exists>r. round32 x = Fin r \<and> 0 \<le> r \<and> r \<le> a
           \<and> r \<le> (1 + float32_u) * x + float32_eta
           \<and> (1 - float32_u) * x - float32_eta \<le> r"
proof -
  have "\<bar>x\<bar> \<le> a" using assms(2,3) by simp
  from round32_error[OF assms(1) this] obtain r where
    r: "round32 x = Fin r" "\<bar>r\<bar> \<le> a" "\<bar>r - x\<bar> \<le> float32_u * \<bar>x\<bar> + float32_eta"
    by blast
  have "0 \<le> r" using round32_nonneg[OF assms(2)] r(1) by simp
  moreover have "r \<le> (1 + float32_u) * x + float32_eta"
    and "(1 - float32_u) * x - float32_eta \<le> r"
    using r(3) assms(2) by (simp_all add: algebra_simps abs_le_iff)
  ultimately show ?thesis using r(1,2) by auto
qed

text \<open>
  The error of a sum of non-negative terms, relative to the sum.
\<close>

lemma sum_nonneg:
  assumes rep: "\<And>k. k < 2 ^ 24 \<Longrightarrow> real k * B \<in> float32_values"
  shows "\<forall>q\<in>set qs. 0 \<le> q \<and> q \<le> B \<Longrightarrow> 0 \<le> s \<Longrightarrow> s \<le> real j * B
    \<Longrightarrow> j + length qs < 2 ^ 24 \<Longrightarrow>
   \<exists>S. foldl fadd32 (Fin s) (map Fin qs) = Fin S \<and> 0 \<le> S
      \<and> S \<le> real (j + length qs) * B
      \<and> S \<le> (1 + float32_u) ^ length qs * (s + sum_list qs + real (length qs) * float32_eta)
      \<and> (1 - float32_u) ^ length qs * (s + sum_list qs) - real (length qs) * float32_eta \<le> S"
proof (induction qs arbitrary: s j)
  case Nil
  then show ?case by simp
next
  case (Cons q qs)
  let ?u = float32_u and ?h = float32_eta
  let ?k = "length qs"
  let ?T = "sum_list qs"
  have q: "0 \<le> q" "q \<le> B" using Cons.prems(1) by simp_all
  have T: "0 \<le> ?T" using Cons.prems(1) by (intro sum_list_nonneg) simp
  have x0: "0 \<le> s + q" using q Cons.prems(2) by simp
  have "s + q \<le> real j * B + B" using q Cons.prems(3) by linarith
  then have xb: "s + q \<le> real (Suc j) * B" by (simp add: algebra_simps)
  have "real (Suc j) * B \<in> float32_values"
    using Cons.prems(4) by (intro rep) simp
  from round32_error_nonneg[OF this x0 xb] obtain s' where
    s': "round32 (s + q) = Fin s'" "0 \<le> s'" "s' \<le> real (Suc j) * B"
        "s' \<le> (1 + ?u) * (s + q) + ?h" "(1 - ?u) * (s + q) - ?h \<le> s'"
    by blast
  have step: "fadd32 (Fin s) (Fin q) = Fin s'" by (simp add: fadd32_def s'(1))
  have "\<exists>S. foldl fadd32 (Fin s') (map Fin qs) = Fin S \<and> 0 \<le> S
      \<and> S \<le> real (Suc j + length qs) * B
      \<and> S \<le> (1 + ?u) ^ ?k * (s' + ?T + real ?k * ?h)
      \<and> (1 - ?u) ^ ?k * (s' + ?T) - real ?k * ?h \<le> S"
    using Cons.prems(1,4) s'(2,3) by (intro Cons.IH[of s' "Suc j"]) simp_all
  then obtain S where S: "foldl fadd32 (Fin s') (map Fin qs) = Fin S" "0 \<le> S"
    "S \<le> (1 + ?u) ^ ?k * (s' + ?T + real ?k * ?h)"
    "(1 - ?u) ^ ?k * (s' + ?T) - real ?k * ?h \<le> S"
    and Sb: "S \<le> real (Suc j + length qs) * B"
    by blast
  have P: "0 \<le> (1 + ?u) ^ ?k" using float32_u_pos by simp
  have L: "0 \<le> (1 - ?u) ^ ?k" "(1 - ?u) ^ ?k \<le> 1"
    using float32_u_pos float32_u_le by (simp_all add: power_le_one)
  have up: "S \<le> (1 + ?u) ^ length (q # qs)
      * (s + sum_list (q # qs) + real (length (q # qs)) * ?h)"
  proof -
    have "0 \<le> ?u * (?T + real (Suc ?k) * ?h)"
      using T float32_u_pos float32_eta_pos by (intro mult_nonneg_nonneg add_nonneg_nonneg) simp_all
    then have "s' + ?T + real ?k * ?h \<le> (1 + ?u) * (s + q + ?T + real (Suc ?k) * ?h)"
      using s'(4) by (simp add: algebra_simps)
    then have "(1 + ?u) ^ ?k * (s' + ?T + real ?k * ?h)
        \<le> (1 + ?u) ^ ?k * ((1 + ?u) * (s + q + ?T + real (Suc ?k) * ?h))"
      using P by (rule mult_left_mono)
    with S(3) show ?thesis by (simp add: algebra_simps)
  qed
  have lo: "(1 - ?u) ^ length (q # qs) * (s + sum_list (q # qs))
      - real (length (q # qs)) * ?h \<le> S"
  proof -
    have "0 \<le> ?u * ?T" using T float32_u_pos by simp
    then have "(1 - ?u) * (s + q + ?T) - ?h \<le> s' + ?T"
      using s'(5) by (simp add: algebra_simps)
    then have "(1 - ?u) ^ ?k * ((1 - ?u) * (s + q + ?T) - ?h) \<le> (1 - ?u) ^ ?k * (s' + ?T)"
      using L(1) by (rule mult_left_mono)
    moreover have "(1 - ?u) ^ ?k * ?h \<le> 1 * ?h"
      using L(2) float32_eta_pos by (intro mult_right_mono) simp_all
    ultimately have "(1 - ?u) ^ ?k * ((1 - ?u) * (s + q + ?T)) - ?h \<le> (1 - ?u) ^ ?k * (s' + ?T)"
      by (simp add: algebra_simps)
    with S(4) show ?thesis by (simp add: algebra_simps)
  qed
  from S(1,2) Sb up lo show ?case by (simp add: step)
qed

lemma pow_1p_le:
  fixes x :: real
  assumes "0 \<le> x"
  shows "real k * x \<le> 1 / 2 \<Longrightarrow> (1 + x) ^ k \<le> 1 + 2 * real k * x"
proof (induction k)
  case 0
  then show ?case by simp
next
  case (Suc k)
  have kx: "real k * x \<le> 1 / 2" using Suc.prems assms by (simp add: algebra_simps)
  have "2 * real k * x * x \<le> 1 * x"
    using kx assms by (intro mult_right_mono) simp_all
  then have "(1 + x) * (1 + 2 * real k * x) \<le> 1 + 2 * real (Suc k) * x"
    by (simp add: algebra_simps)
  moreover have "(1 + x) * (1 + x) ^ k \<le> (1 + x) * (1 + 2 * real k * x)"
    using Suc.IH[OF kx] assms by (intro mult_left_mono) simp_all
  ultimately show ?case by simp
qed

lemma pow_1m_ge:
  fixes x :: real
  assumes "0 \<le> x" and "x \<le> 1"
  shows "1 - real k * x \<le> (1 - x) ^ k"
  using Bernoulli_inequality[of "- x" k] assms by simp

lemma sqrt_lower:
  assumes "0 \<le> v" and "0 \<le> X" and "0 \<le> h" and "X - h \<le> v"
  shows "sqrt X - sqrt h \<le> sqrt v"
proof -
  have "sqrt X \<le> sqrt (v + h)" using assms(4) by simp
  also have "\<dots> \<le> sqrt v + sqrt h" using assms(1,3) by (rule sqrt_add_le_add_sqrt)
  finally show ?thesis by simp
qed

lemma sqrt_upper:
  assumes "0 \<le> a" and "0 \<le> h"
  shows "sqrt (a * a + h) \<le> a + sqrt h"
proof -
  have "sqrt (a * a + h) \<le> sqrt (a * a) + sqrt h"
    using assms by (intro sqrt_add_le_add_sqrt) simp_all
  then show ?thesis using assms(1) by simp
qed

lemma sqrt_le_self: "1 \<le> P \<Longrightarrow> sqrt P \<le> P"
proof -
  assume P: "1 \<le> P"
  then have "P * 1 \<le> P * P" by (intro mult_left_mono) simp_all
  then have "sqrt P \<le> sqrt (P * P)" by (simp only: real_sqrt_le_iff mult_1_right)
  moreover have "sqrt (P * P) = P" using P by simp
  ultimately show ?thesis by simp
qed

lemma sqrt_ge_self: "0 \<le> L \<Longrightarrow> L \<le> 1 \<Longrightarrow> L \<le> sqrt L"
proof -
  assume L: "0 \<le> L" "L \<le> 1"
  then have "L * L \<le> L * 1" by (intro mult_left_mono) simp_all
  then have "sqrt (L * L) \<le> sqrt L" by (simp only: real_sqrt_le_iff mult_1_right)
  moreover have "sqrt (L * L) = L" using L(1) by simp
  ultimately show ?thesis by simp
qed

text \<open>
  The computed mean, the computed deviations from it and their squares, for entries of
  magnitude at most \<open>M\<close>, a bound such that the multiples \<open>k * M\<close> with \<open>k < 2 ^ 24\<close> are
  representable.
\<close>

lemma the_fin_Fin [simp]: "the_fin (Fin a) = a"
  by (simp add: the_fin_def)

lemma mean_error:
  assumes n: "2 \<le> length ys" "length ys < 2 ^ 24"
    and b: "\<forall>y\<in>set ys. \<bar>y\<bar> \<le> M"
    and rep: "\<And>k. k < 2 ^ 24 \<Longrightarrow> real k * M \<in> float32_values"
    and eta: "float32_eta \<le> float32_u * M"
  shows "\<exists>mh. t_mean (map Fin ys) = Fin mh \<and> \<bar>mh\<bar> \<le> M
           \<and> \<bar>mh - sample_mean ys\<bar> \<le> (real (length ys) + 3) * (float32_u * M)"
proof -
  let ?N = "real (length ys)"
  let ?u = float32_u and ?h = float32_eta
  have npos: "0 < ?N" using n(1) by linarith
  have M0: "0 \<le> M" using b n(1) by (cases ys) auto
  from sum_error[of M ys 0 0, OF rep] b n(2) obtain S where
    S: "t_sum (map Fin ys) = Fin S" "\<bar>S\<bar> \<le> ?N * M"
       "\<bar>S - sum_list ys\<bar> \<le> ?N * (?u * (?N * M) + ?h)"
    by (auto simp: t_sum_def)
  have rn: "round32 ?N = Fin ?N" using n(2) by (intro round32_of_nat)
  have "\<bar>S / ?N\<bar> = \<bar>S\<bar> / ?N" by simp
  also have "\<dots> \<le> M" using S(2) npos by (simp add: pos_divide_le_eq mult.commute)
  finally have q: "\<bar>S / ?N\<bar> \<le> M" .
  have MF: "M \<in> float32_values" using rep[of 1] by simp
  from round32_error[OF MF q] obtain mh where
    mh: "round32 (S / ?N) = Fin mh" "\<bar>mh\<bar> \<le> M" "\<bar>mh - S / ?N\<bar> \<le> ?u * \<bar>S / ?N\<bar> + ?h"
    by blast
  have mean: "t_mean (map Fin ys) = Fin mh"
    using npos by (simp add: t_mean_def S(1) rn fdiv32_def mh(1))
  have "?u * \<bar>S / ?N\<bar> \<le> ?u * M" using q float32_u_pos by (intro mult_left_mono) simp_all
  with mh(3) eta have e1: "\<bar>mh - S / ?N\<bar> \<le> 2 * (?u * M)" by linarith
  have "\<bar>S / ?N - sample_mean ys\<bar> = \<bar>S - sum_list ys\<bar> / ?N"
    by (simp add: sample_mean_def diff_divide_distrib[symmetric])
  also have "\<dots> \<le> ?u * (?N * M) + ?h"
    using S(3) npos by (simp add: pos_divide_le_eq mult.commute)
  also have "\<dots> \<le> (?N + 1) * (?u * M)" using eta by (simp add: algebra_simps)
  finally have e2: "\<bar>S / ?N - sample_mean ys\<bar> \<le> (?N + 1) * (?u * M)" .
  have "\<bar>mh - sample_mean ys\<bar> \<le> \<bar>mh - S / ?N\<bar> + \<bar>S / ?N - sample_mean ys\<bar>" by simp
  also have "\<dots> \<le> 2 * (?u * M) + (?N + 1) * (?u * M)" using e1 e2 by linarith
  also have "\<dots> = (?N + 3) * (?u * M)" by (simp add: algebra_simps)
  finally show ?thesis using mean mh(2) by blast
qed

lemma deviation_error:
  assumes "\<bar>y\<bar> \<le> M" and "\<bar>mh\<bar> \<le> M"
    and rep: "\<And>k. k < 2 ^ 24 \<Longrightarrow> real k * M \<in> float32_values"
    and eta: "float32_eta \<le> float32_u * M"
  shows "\<exists>d. fsub32 (Fin y) (Fin mh) = Fin d \<and> \<bar>d\<bar> \<le> 2 * M
           \<and> \<bar>d - (y - mh)\<bar> \<le> 3 * (float32_u * M)"
proof -
  have b: "\<bar>y - mh\<bar> \<le> 2 * M" using assms(1,2) by linarith
  have "2 * M \<in> float32_values" using rep[of 2] by simp
  from round32_error[OF this b] obtain d where
    d: "round32 (y - mh) = Fin d" "\<bar>d\<bar> \<le> 2 * M"
       "\<bar>d - (y - mh)\<bar> \<le> float32_u * \<bar>y - mh\<bar> + float32_eta"
    by blast
  have "float32_u * \<bar>y - mh\<bar> \<le> float32_u * (2 * M)"
    using b float32_u_pos by (intro mult_left_mono) simp_all
  with d(3) eta have "\<bar>d - (y - mh)\<bar> \<le> 3 * (float32_u * M)" by linarith
  with d(1,2) show ?thesis by (auto simp: fsub32_def fsub_def)
qed

lemma float32_2_102: "(2 :: real) ^ 102 \<in> float32_values"
  using float32_pow2[of 102] by simp

lemma square_error:
  assumes "\<bar>d\<bar> \<le> 2 * M" and "M \<le> 2 ^ 50"
  shows "\<exists>q. fmul32 (Fin d) (Fin d) = Fin q \<and> 0 \<le> q \<and> q \<le> 2 ^ 102
           \<and> q \<le> (1 + float32_u) * (d * d) + float32_eta
           \<and> (1 - float32_u) * (d * d) - float32_eta \<le> q"
proof -
  have "\<bar>d\<bar> \<le> 2 ^ 51" using assms by simp
  then have "\<bar>d\<bar> * \<bar>d\<bar> \<le> 2 ^ 51 * 2 ^ 51" by (intro mult_mono) simp_all
  then have b: "d * d \<le> 2 ^ 102" by (simp add: abs_mult_self_eq)
  have "0 \<le> d * d" by simp
  from round32_error_nonneg[OF float32_2_102 this b] show ?thesis
    by (simp add: fmul32_def)
qed

lemma step_up:
  fixes X Y Z K P c :: real
  assumes "1 \<le> K" and "1 \<le> P" and "0 \<le> Y" and "0 \<le> c"
    and "Z \<le> P * Y" and "X \<le> K * Z + c"
  shows "X \<le> (K * P) * (Y + c)"
proof -
  have "K * Z \<le> K * (P * Y)" using assms(1,5) by (intro mult_left_mono) simp_all
  moreover have "1 * 1 \<le> K * P" using assms(1,2) by (intro mult_mono) simp_all
  then have "1 * c \<le> (K * P) * c" using assms(4) by (intro mult_right_mono) simp_all
  ultimately show ?thesis using assms(6) by (simp add: algebra_simps)
qed

lemma step_lo:
  fixes X Y Z K L c e :: real
  assumes "0 \<le> K" and "K \<le> 1" and "0 \<le> e" and "0 \<le> c"
    and "L * Y - e \<le> Z" and "K * Z - c \<le> X"
  shows "(K * L) * Y - (e + c) \<le> X"
proof -
  have "K * (L * Y - e) \<le> K * Z" using assms(1,5) by (intro mult_left_mono) simp_all
  moreover have "K * e \<le> 1 * e" using assms(2,3) by (intro mult_right_mono) simp_all
  ultimately show ?thesis using assms(6) by (simp add: algebra_simps)
qed

lemma sum_list_affine:
  fixes c e :: real
  shows "sum_list (map (\<lambda>y. c * f y + e) ys) = c * sum_list (map f ys) + real (length ys) * e"
  by (induction ys) (simp_all add: algebra_simps)


lemma divide_ge1_le:
  fixes x c :: real
  assumes "0 \<le> x" and "1 \<le> c"
  shows "x / c \<le> x"
  using frac_le[of x x 1 c] assms by simp

lemma rep_102: "k < 2 ^ 24 \<Longrightarrow> real k * 2 ^ 102 \<in> float32_values"
  using float32_valuesI[of "int k" 102] by simp

lemma float32_2_126: "(2 :: real) ^ 126 \<in> float32_values"
  using float32_pow2[of 126] by simp

lemma float32_2_63: "(2 :: real) ^ 63 \<in> float32_values"
  using float32_pow2[of 63] by simp

lemma l2norm_square: "l2norm xs * l2norm xs = sum_list (map (\<lambda>x. x * x) xs)"
  using sum_list_sq_nonneg[of xs] by (simp add: l2norm_def)

text \<open>
  The computed standard deviation against the norm of the computed deviations.
\<close>

lemma std_error:
  fixes dh :: "real \<Rightarrow> real"
  assumes n: "2 \<le> length ys" "length ys < 2 ^ 24"
    and dev: "\<forall>y\<in>set ys. \<bar>dh y\<bar> \<le> 2 * M"
    and M50: "M \<le> 2 ^ 50"
  shows "\<exists>sh. fsqrt32 (fdiv32 (t_sum (map (\<lambda>y. fmul32 (Fin (dh y)) (Fin (dh y))) ys))
                         (round32 (real (length ys - 1)))) = Fin sh
     \<and> 0 \<le> sh \<and> sh \<le> 2 ^ 63
     \<and> sh \<le> (1 + float32_u) ^ (length ys + 3)
            * (l2norm (map dh ys) / sqrt (real (length ys - 1))
               + sqrt ((2 * real (length ys) + 1) * float32_eta) + float32_eta)
     \<and> (1 - float32_u) ^ (length ys + 3) * (l2norm (map dh ys) / sqrt (real (length ys - 1)))
          - sqrt ((2 * real (length ys) + 1) * float32_eta) - float32_eta \<le> sh"
proof -
  let ?u = float32_u and ?h = float32_eta
  let ?n = "length ys"
  let ?N = "real (length ys)"
  define N1 where "N1 = real (length ys - 1)"
  define qh where "qh = (\<lambda>y. the_fin (fmul32 (Fin (dh y)) (Fin (dh y))))"
  define A2 where "A2 = sum_list (map (\<lambda>y. dh y * dh y) ys)"
  define T where "T = sum_list (map qh ys)"
  define a where "a = l2norm (map dh ys) / sqrt N1"
  define Nh where "Nh = ?N * ?h"
  define hh where "hh = 2 * Nh + ?h"
  define P where "P = (\<lambda>k. (1 + ?u) ^ (?n + k))"
  define L where "L = (\<lambda>k. (1 - ?u) ^ (?n + k))"
  have u: "0 < ?u" "?u \<le> 1" "0 \<le> 1 - ?u" "1 - ?u \<le> 1" "1 \<le> 1 + ?u"
    using float32_u_pos float32_u_le by simp_all
  have h: "0 \<le> ?h" using float32_eta_pos by simp
  have N1: "1 \<le> N1" unfolding N1_def using n(1) by linarith
  have Nh: "0 \<le> Nh" using h by (simp add: Nh_def)
  have hh0: "0 \<le> hh" using h Nh by (simp add: hh_def)
  have hh_eq: "hh = (2 * ?N + 1) * ?h" by (simp add: hh_def Nh_def algebra_simps)
  have P1: "1 \<le> P k" for k unfolding P_def using u(5) by (rule one_le_power)
  have P0: "0 \<le> P k" for k using P1[of k] by simp
  have PS: "(1 + ?u) * P k = P (Suc k)" for k by (simp add: P_def)
  have L0: "0 \<le> L k" and L1': "L k \<le> 1" for k
    unfolding L_def using u(3,4) by (simp_all add: power_le_one)
  have LS: "(1 - ?u) * L k = L (Suc k)" for k by (simp add: L_def)
  have A20: "0 \<le> A2" unfolding A2_def by (rule sum_list_nonneg) auto
  have a0: "0 \<le> a" using N1 by (simp add: a_def l2norm_nonneg)
  have a2: "a * a = A2 / N1"
  proof -
    have "a * a = (l2norm (map dh ys) * l2norm (map dh ys)) / (sqrt N1 * sqrt N1)"
      by (simp add: a_def)
    also have "\<dots> = A2 / N1"
      unfolding l2norm_square using N1 by (simp add: A2_def comp_def)
    finally show ?thesis .
  qed
  have q: "fmul32 (Fin (dh y)) (Fin (dh y)) = Fin (qh y) \<and> 0 \<le> qh y \<and> qh y \<le> 2 ^ 102
      \<and> qh y \<le> (1 + ?u) * (dh y * dh y) + ?h \<and> (1 - ?u) * (dh y * dh y) + (- ?h) \<le> qh y"
    if "y \<in> set ys" for y
  proof -
    from that dev have "\<bar>dh y\<bar> \<le> 2 * M" by blast
    from square_error[OF this M50] obtain q where
      "fmul32 (Fin (dh y)) (Fin (dh y)) = Fin q" "0 \<le> q" "q \<le> 2 ^ 102"
      "q \<le> (1 + ?u) * (dh y * dh y) + ?h" "(1 - ?u) * (dh y * dh y) - ?h \<le> q"
      by blast
    then show ?thesis by (simp add: qh_def)
  qed
  have sq: "map (\<lambda>y. fmul32 (Fin (dh y)) (Fin (dh y))) ys = map Fin (map qh ys)"
    using q by simp
  have "T \<le> sum_list (map (\<lambda>y. (1 + ?u) * (dh y * dh y) + ?h) ys)"
    unfolding T_def using q by (intro sum_list_mono) simp
  then have U1: "T \<le> (1 + ?u) * A2 + Nh"
    unfolding sum_list_affine by (simp add: A2_def Nh_def)
  have "sum_list (map (\<lambda>y. (1 - ?u) * (dh y * dh y) + (- ?h)) ys) \<le> T"
    unfolding T_def using q by (intro sum_list_mono) simp
  then have L1: "(1 - ?u) * A2 - Nh \<le> T"
    unfolding sum_list_affine by (simp add: A2_def Nh_def)
  have "\<forall>x\<in>set (map qh ys). 0 \<le> x \<and> x \<le> 2 ^ 102" using q by simp
  from sum_nonneg[of "2 ^ 102" "map qh ys" 0 0, OF rep_102 this] n(2)
  obtain Q where Q: "t_sum (map Fin (map qh ys)) = Fin Q" "0 \<le> Q" "Q \<le> ?N * 2 ^ 102"
    "Q \<le> P 0 * (T + Nh)" "L 0 * T - Nh \<le> Q"
    by (auto simp: t_sum_def T_def P_def L_def Nh_def)
  have U2: "Q \<le> P 1 * (A2 + 2 * Nh)"
  proof -
    have e1: "P 1 = (1 + ?u) * P 0" using PS[of 0] by simp
    have "0 \<le> ?u * (2 * Nh)" using u(1) Nh by simp
    then have "T + Nh \<le> (1 + ?u) * (A2 + 2 * Nh)"
      using U1 by (simp add: algebra_simps)
    then have "P 0 * (T + Nh) \<le> P 0 * ((1 + ?u) * (A2 + 2 * Nh))"
      using P0[of 0] by (rule mult_left_mono)
    also have "\<dots> = P 1 * (A2 + 2 * Nh)"
      unfolding e1 by (simp only: mult_ac)
    finally show ?thesis using Q(4) by linarith
  qed
  have L2: "L 1 * A2 - 2 * Nh \<le> Q"
  proof -
    have B: "(L 0 * (1 - ?u)) * A2 - (Nh + Nh) \<le> Q"
      using L0[of 0] L1'[of 0] Nh Nh L1 Q(5) by (rule step_lo)
    have e: "L 0 * (1 - ?u) = L 1" using LS[of 0] by (simp only: mult_ac One_nat_def)
    show ?thesis using B unfolding e by simp
  qed
  have rn1: "round32 (real (length ys - 1)) = Fin N1"
    unfolding N1_def using n(2) by (intro round32_of_nat) simp
  have d0: "0 \<le> Q / N1" using Q(2) N1 by simp
  have "Q / N1 \<le> Q" using Q(2) N1 by (rule divide_ge1_le)
  also have "Q \<le> 2 ^ 24 * 2 ^ 102"
    using n(2) by (intro order_trans[OF Q(3)] mult_right_mono) simp_all
  finally have d1: "Q / N1 \<le> 2 ^ 126" by simp
  from round32_error_nonneg[OF float32_2_126 d0 d1] obtain v where
    v: "round32 (Q / N1) = Fin v" "0 \<le> v" "v \<le> 2 ^ 126"
       "v \<le> (1 + ?u) * (Q / N1) + ?h" "(1 - ?u) * (Q / N1) - ?h \<le> v"
    by blast
  have dv: "fdiv32 (Fin Q) (Fin N1) = Fin v" using N1 by (simp add: fdiv32_def v(1))
  have small: "2 * Nh / N1 \<le> 2 * Nh"
    using N1 Nh by (intro divide_ge1_le) simp_all
  have U3: "Q / N1 \<le> P 1 * (a * a + 2 * Nh)"
  proof -
    have "Q / N1 \<le> P 1 * (A2 + 2 * Nh) / N1"
      using U2 N1 by (intro divide_right_mono) simp_all
    also have "\<dots> = P 1 * (a * a + 2 * Nh / N1)"
      unfolding a2 by (simp only: times_divide_eq_right[symmetric] add_divide_distrib)
    also have "\<dots> \<le> P 1 * (a * a + 2 * Nh)"
      using small P0[of 1] by (intro mult_left_mono) simp_all
    finally show ?thesis .
  qed
  have L3: "L 1 * (a * a) - 2 * Nh \<le> Q / N1"
  proof -
    have "(L 1 * A2 - 2 * Nh) / N1 \<le> Q / N1"
      using L2 N1 by (intro divide_right_mono) simp_all
    moreover have "(L 1 * A2 - 2 * Nh) / N1 = L 1 * (a * a) - 2 * Nh / N1"
      unfolding a2 by (simp only: diff_divide_distrib times_divide_eq_right[symmetric])
    ultimately show ?thesis using small by linarith
  qed
  have U4: "v \<le> P 2 * (a * a + hh)"
  proof -
    have Y: "0 \<le> a * a + 2 * Nh" using Nh by simp
    have B: "v \<le> ((1 + ?u) * P 1) * ((a * a + 2 * Nh) + ?h)"
      using u(5) P1[of 1] Y h U3 v(4) by (rule step_up)
    have e: "(1 + ?u) * P 1 = P 2" using PS[of 1] by (simp add: numeral_2_eq_2)
    have e': "(a * a + 2 * Nh) + ?h = a * a + hh" by (simp add: hh_def)
    show ?thesis using B unfolding e e' .
  qed
  have L4: "L 2 * (a * a) - hh \<le> v"
  proof -
    have N2: "0 \<le> 2 * Nh" using Nh by simp
    have B: "((1 - ?u) * L 1) * (a * a) - (2 * Nh + ?h) \<le> v"
      using u(3,4) N2 h L3 v(5) by (rule step_lo)
    have e: "(1 - ?u) * L 1 = L 2" using LS[of 1] by (simp add: numeral_2_eq_2)
    show ?thesis using B unfolding e hh_def .
  qed
  have r1: "sqrt v \<le> 2 ^ 63"
  proof (rule real_le_lsqrt)
    show "v \<le> (2 ^ 63)\<^sup>2" using v(3) by simp
  qed simp
  have r0: "0 \<le> sqrt v" using v(2) by simp
  from round32_error_nonneg[OF float32_2_63 r0 r1] obtain sh where
    sh: "round32 (sqrt v) = Fin sh" "0 \<le> sh" "sh \<le> 2 ^ 63"
        "sh \<le> (1 + ?u) * sqrt v + ?h" "(1 - ?u) * sqrt v - ?h \<le> sh"
    by blast
  have ds: "fsqrt32 (Fin v) = Fin sh"
    using v(2) by (simp add: fsqrt32_def sh(1) not_less[symmetric])
  have U5: "sqrt v \<le> P 2 * (a + sqrt hh)"
  proof -
    have "sqrt v \<le> sqrt (P 2 * (a * a + hh))" using U4 by simp
    also have "\<dots> = sqrt (P 2) * sqrt (a * a + hh)" by (rule real_sqrt_mult)
    also have "\<dots> \<le> P 2 * (a + sqrt hh)"
    proof (rule mult_mono)
      show "sqrt (P 2) \<le> P 2" using P1[of 2] by (rule sqrt_le_self)
      show "sqrt (a * a + hh) \<le> a + sqrt hh" using a0 hh0 by (rule sqrt_upper)
      show "0 \<le> P 2" by (rule P0)
      show "0 \<le> sqrt (a * a + hh)" using hh0 by simp
    qed
    finally show ?thesis .
  qed
  have L5: "L 2 * a - sqrt hh \<le> sqrt v"
  proof -
    have X0: "0 \<le> L 2 * (a * a)" using L0[of 2] by simp
    have "sqrt (L 2 * (a * a)) - sqrt hh \<le> sqrt v"
      using v(2) X0 hh0 L4 by (rule sqrt_lower)
    moreover have "sqrt (L 2 * (a * a)) = sqrt (L 2) * a"
      using a0 by (simp add: real_sqrt_mult)
    moreover have "L 2 * a \<le> sqrt (L 2) * a"
      using sqrt_ge_self[OF L0[of 2] L1'[of 2]] a0 by (rule mult_right_mono)
    ultimately show ?thesis by linarith
  qed
  have U6: "sh \<le> P 3 * (a + sqrt hh + ?h)"
  proof -
    have Y: "0 \<le> a + sqrt hh" using a0 hh0 by simp
    have B: "sh \<le> ((1 + ?u) * P 2) * ((a + sqrt hh) + ?h)"
      using u(5) P1[of 2] Y h U5 sh(4) by (rule step_up)
    have e: "(1 + ?u) * P 2 = P 3" using PS[of 2] by (simp add: numeral_3_eq_3 numeral_2_eq_2)
    show ?thesis using B unfolding e .
  qed
  have L6: "L 3 * a - sqrt hh - ?h \<le> sh"
  proof -
    have Y: "0 \<le> sqrt hh" using hh0 by simp
    have B: "((1 - ?u) * L 2) * a - (sqrt hh + ?h) \<le> sh"
      using u(3,4) Y h L5 sh(5) by (rule step_lo)
    have e: "(1 - ?u) * L 2 = L 3" using LS[of 2] by (simp add: numeral_3_eq_3 numeral_2_eq_2)
    show ?thesis using B unfolding e by simp
  qed
  have "fsqrt32 (fdiv32 (t_sum (map (\<lambda>y. fmul32 (Fin (dh y)) (Fin (dh y))) ys))
                         (round32 (real (length ys - 1)))) = Fin sh"
    unfolding sq Q(1) rn1 dv ds ..
  with sh(2,3) U6 L6 show ?thesis unfolding a_def hh_eq N1_def P_def L_def by blast
qed

lemma float32_2_64: "(2 :: real) ^ 64 \<in> float32_values"
  using float32_pow2[of 64] by simp

text \<open>
  The computed denominator against the exact one, given the computed standard deviation.
\<close>

lemma denominator_error:
  fixes a s c rho :: real
  assumes sh: "0 \<le> sh" "sh \<le> 2 ^ 63"
    and U: "sh \<le> (1 + float32_u) ^ (n + 3) * (a + r + float32_eta)"
    and L: "(1 - float32_u) ^ (n + 3) * a - r - float32_eta \<le> sh"
    and a: "0 \<le> a" "\<bar>a - s\<bar> \<le> c" and s: "0 \<le> s" and r: "0 \<le> r"
    and n: "real (n + 4) * float32_u \<le> 1 / 2"
  shows "\<exists>D. fadd32 (Fin sh) (Fin float32_eps) = Fin D
     \<and> \<bar>D - (s + float32_eps)\<bar>
         \<le> 2 * real (n + 4) * float32_u * (s + float32_eps) + 2 * c + 2 * (r + 2 * float32_eta)"
proof -
  let ?u = float32_u and ?h = float32_eta and ?e = float32_eps
  define sg where "sg = s + ?e"
  define rho where "rho = r + 2 * ?h"
  define phi where "phi = 2 * real (n + 4) * ?u"
  define P3 where "P3 = (1 + ?u) ^ (n + 3)"
  define L3 where "L3 = (1 - ?u) ^ (n + 3)"
  define P4 where "P4 = (1 + ?u) ^ (n + 4)"
  define L4 where "L4 = (1 - ?u) ^ (n + 4)"
  have u: "0 < ?u" "?u \<le> 1" "0 \<le> 1 - ?u" "1 - ?u \<le> 1" "1 \<le> 1 + ?u"
    using float32_u_pos float32_u_le by simp_all
  have h: "0 \<le> ?h" using float32_eta_pos by simp
  have e: "0 < ?e" by (rule float32_eps_pos)
  have c: "0 \<le> c" using a(2) by simp
  have P3: "1 \<le> P3" unfolding P3_def using u(5) by (rule one_le_power)
  have L3: "0 \<le> L3" "L3 \<le> 1" unfolding L3_def using u(3,4) by (simp_all add: power_le_one)
  have n4: "n + 4 = Suc (n + 3)" by simp
  have P4e: "(1 + ?u) * P3 = P4" by (simp only: P3_def P4_def n4 power_Suc)
  have L4e: "(1 - ?u) * L3 = L4" by (simp only: L3_def L4_def n4 power_Suc)
  have P4: "P4 \<le> 1 + phi"
    unfolding P4_def phi_def using u(1) n by (intro pow_1p_le) simp_all
  have half: "phi / 2 = real (n + 4) * ?u" unfolding phi_def by simp
  have L4: "1 - phi / 2 \<le> L4"
    unfolding L4_def half using u(1,2) by (intro pow_1m_ge) simp_all
  have phi: "0 \<le> phi" "phi \<le> 1"
  proof -
    show "0 \<le> phi" unfolding phi_def using u(1) by (intro mult_nonneg_nonneg) simp_all
    show "phi \<le> 1" using n half by linarith
  qed
  have x0: "0 \<le> sh + ?e" using sh(1) e by simp
  have "?e \<le> 1" by (simp add: float32_eps_def)
  then have x1: "sh + ?e \<le> 2 ^ 64" using sh(2) by simp
  from round32_error_nonneg[OF float32_2_64 x0 x1] obtain D where
    D: "round32 (sh + ?e) = Fin D" "D \<le> (1 + ?u) * (sh + ?e) + ?h"
       "(1 - ?u) * (sh + ?e) - ?h \<le> D"
    by blast
  have dD: "fadd32 (Fin sh) (Fin ?e) = Fin D" by (simp add: fadd32_def D(1))
  have "1 * ?e \<le> P3 * ?e" using P3 e by (intro mult_right_mono) simp_all
  then have "sh + ?e \<le> P3 * (a + ?e + r + ?h)"
    using U by (simp add: P3_def algebra_simps)
  moreover have "0 \<le> a + ?e + r + ?h" using a(1) e r h by simp
  ultimately have "D \<le> ((1 + ?u) * P3) * ((a + ?e + r + ?h) + ?h)"
    using u(5) P3 h D(2) by (intro step_up[where Z = "sh + ?e"]) simp_all
  then have U7: "D \<le> P4 * (a + ?e + rho)" unfolding P4e by (simp add: rho_def algebra_simps)
  have Y: "0 \<le> a + ?e + rho" using a(1) e r h by (simp add: rho_def)
  have "P4 * (a + ?e + rho) \<le> (1 + phi) * (a + ?e + rho)"
    using P4 Y by (rule mult_right_mono)
  also have "a + ?e + rho \<le> sg + c + rho" using a(2) by (simp add: sg_def abs_le_iff)
  finally have t0: "D \<le> (1 + phi) * (sg + c + rho)"
    using U7 phi(1) by (simp add: mult_left_mono)
  define pr where "pr = phi * (c + rho)"
  define qs where "qs = phi * sg"
  have "pr \<le> 1 * (c + rho)"
    unfolding pr_def using phi(2) c r h by (intro mult_right_mono) (simp_all add: rho_def)
  then have pr: "pr \<le> c + rho" by simp
  have eq: "(1 + phi) * (sg + c + rho) = sg + c + rho + qs + pr"
    by (simp add: pr_def qs_def algebra_simps)
  have "D \<le> sg + c + rho + qs + pr" using t0 unfolding eq .
  with pr have "D - sg \<le> qs + 2 * c + 2 * rho" by linarith
  then have up: "D - sg \<le> phi * sg + 2 * c + 2 * rho" unfolding qs_def .
  have "L3 * ?e \<le> 1 * ?e" using L3(2) e by (intro mult_right_mono) simp_all
  then have "L3 * (a + ?e) - (r + ?h) \<le> sh + ?e"
    using L by (simp add: L3_def algebra_simps)
  then have "((1 - ?u) * L3) * (a + ?e) - ((r + ?h) + ?h) \<le> D"
    using u(3,4) h r D(3) by (intro step_lo[where Z = "sh + ?e"]) simp_all
  then have L7: "L4 * (a + ?e) - rho \<le> D" unfolding L4e by (simp add: rho_def algebra_simps)
  have ae: "0 \<le> a + ?e" using a(1) e by simp
  define hp where "hp = phi / 2"
  define ps where "ps = hp * sg"
  define pc where "pc = hp * c"
  have hp: "0 \<le> hp" "hp \<le> 1" "1 - hp \<le> L4" using phi L4 by (simp_all add: hp_def)
  have ps: "0 \<le> ps" unfolding ps_def sg_def using hp(1) s e by (intro mult_nonneg_nonneg) simp_all
  have pc: "0 \<le> pc" unfolding pc_def using hp(1) c by (intro mult_nonneg_nonneg) simp_all
  have t1: "(1 - hp) * (sg - c) = sg - c - ps + pc"
    by (simp add: ps_def pc_def algebra_simps)
  have t2: "(1 - hp) * (a + ?e) \<le> L4 * (a + ?e)" using hp(3) ae by (rule mult_right_mono)
  have t3: "(1 - hp) * (sg - c) \<le> (1 - hp) * (a + ?e)"
    using a(2) hp(2) by (intro mult_left_mono) (simp_all add: sg_def abs_le_iff)
  define X where "X = L4 * (a + ?e)"
  have "(1 - hp) * (sg - c) \<le> X" using t2 t3 unfolding X_def by (rule order_trans[rotated])
  then have x1: "sg - c - ps + pc \<le> X" unfolding t1 .
  have x2: "X - rho \<le> D" using L7 unfolding X_def .
  have rho0: "0 \<le> rho" using r h by (simp add: rho_def)
  from x1 x2 ps pc c rho0 have "sg - D \<le> 2 * ps + 2 * c + 2 * rho" by linarith
  moreover have "2 * ps = phi * sg" by (simp add: ps_def hp_def)
  ultimately have lo: "sg - D \<le> phi * sg + 2 * c + 2 * rho" by simp
  from up lo have "\<bar>D - sg\<bar> \<le> phi * sg + 2 * c + 2 * rho" by (simp add: abs_le_iff)
  with dD show ?thesis unfolding sg_def rho_def phi_def by blast
qed

lemma sample_std_nonneg: "0 \<le> sample_std xs"
proof -
  have "0 \<le> sum_list (map (\<lambda>x. (x - sample_mean xs) * (x - sample_mean xs)) xs)"
    by (rule sum_list_nonneg) auto
  then show ?thesis by (simp add: sample_std_def)
qed

lemma sum_list_shift:
  "sum_list (map (\<lambda>x. (x - m) / d) (xs :: real list)) = (sum_list xs - real (length xs) * m) / d"
  by (simp add: divide_inverse sum_list_mult_const sum_list_subtractf sum_list_triv)

lemma sample_mean_standardised:
  assumes "xs \<noteq> []"
  shows "sample_mean (map (\<lambda>x. (x - sample_mean xs) / d) xs) = 0"
  using assms by (simp add: sample_mean_def[of "map _ _"] sum_list_shift) (simp add: sample_mean_def)

lemma sum_list_squares_scaled:
  "sum_list (map (\<lambda>x. ((x - m) / d) * ((x - m) / d)) (xs :: real list))
     = sum_list (map (\<lambda>x. (x - m) * (x - m)) xs) / (d * d)"
proof -
  have "(\<lambda>x. ((x - m) / d) * ((x - m) / d)) = (\<lambda>x. ((x - m) * (x - m)) * inverse (d * d))"
    by (rule ext) (simp add: divide_inverse)
  then show ?thesis
    by (simp add: sum_list_mult_const divide_inverse)
qed

lemma sample_std_standardised:
  assumes "xs \<noteq> []" and "0 < d"
  shows "sample_std (map (\<lambda>x. (x - sample_mean xs) / d) xs) = sample_std xs / d"
proof -
  let ?ys = "map (\<lambda>x. (x - sample_mean xs) / d) xs"
  let ?S = "sum_list (map (\<lambda>x. (x - sample_mean xs) * (x - sample_mean xs)) xs)"
  have "sample_std ?ys
      = sqrt (sum_list (map (\<lambda>x. ((x - sample_mean xs) / d) * ((x - sample_mean xs) / d)) xs)
              / real (length xs - 1))"
    unfolding sample_std_def[of ?ys] sample_mean_standardised[OF assms(1)]
    by (simp add: comp_def)
  also have "\<dots> = sqrt ((?S / real (length xs - 1)) / (d * d))"
    unfolding sum_list_squares_scaled by simp
  also have "\<dots> = sqrt (?S / real (length xs - 1)) / \<bar>d\<bar>"
    by (simp only: real_sqrt_divide real_sqrt_abs2)
  also have "\<dots> = sample_std xs / d"
    using assms(2) by (simp add: sample_std_def)
  finally show ?thesis .
qed

lemma rho_small:
  assumes "n < 2 ^ 24"
  shows "sqrt ((2 * real n + 1) * float32_eta) + 2 * float32_eta \<le> float32_u * float32_eps"
proof -
  have "real n \<le> 2 ^ 24" using assms by (simp add: of_nat_less_numeral_power_cancel_iff less_imp_le)
  then have "(2 * real n + 1) * float32_eta \<le> 2 ^ 26 * float32_eta"
    using float32_eta_pos by (intro mult_right_mono) simp_all
  also have "\<dots> = (1 / 2 ^ 62)\<^sup>2" by (simp add: float32_eta_def power2_eq_square)
  finally have "sqrt ((2 * real n + 1) * float32_eta) \<le> 1 / 2 ^ 62"
    by (intro real_le_lsqrt) simp_all
  moreover have "1 / 2 ^ 62 + 2 * float32_eta \<le> float32_u * float32_eps"
    by (simp add: float32_eta_def float32_u_def float32_eps_def)
  ultimately show ?thesis by linarith
qed

lemma sqrt_ratio:
  assumes "2 \<le> n"
  shows "sqrt (real n) \<le> 3 / 2 * sqrt (real (n - 1))"
proof -
  have "real n \<le> (3 / 2)\<^sup>2 * real (n - 1)"
    using assms by (simp add: power2_eq_square of_nat_diff)
  then have "sqrt (real n) \<le> sqrt ((3 / 2)\<^sup>2 * real (n - 1))" by simp
  also have "\<dots> = 3 / 2 * sqrt (real (n - 1))"
    by (simp only: real_sqrt_mult) simp
  finally show ?thesis .
qed

text \<open>
  The norm of the computed deviations against the exact standard deviation.
\<close>

lemma deviation_norm:
  assumes n: "2 \<le> length ys"
    and d: "\<forall>y\<in>set ys. \<bar>dh y - (y - sample_mean ys)\<bar> \<le> E"
  shows "\<bar>l2norm (map dh ys) / sqrt (real (length ys - 1)) - sample_std ys\<bar> \<le> 3 / 2 * E"
proof -
  let ?m = "sample_mean ys"
  define r1 where "r1 = sqrt (real (length ys - 1))"
  have r1: "0 < r1" unfolding r1_def using n by simp
  from n have ne: "ys \<noteq> []" by auto
  have E: "0 \<le> E" using d ne by (cases ys) auto
  have s: "sample_std ys = l2norm (map (\<lambda>y. y - ?m) ys) / r1"
    using sample_std_l2norm[of "\<lambda>y. y" ys] by (simp add: r1_def)
  have "\<bar>l2norm (map dh ys) - l2norm (map (\<lambda>y. y - ?m) ys)\<bar>
      \<le> l2norm (map (\<lambda>y. dh y - (y - ?m)) ys)"
    by (rule l2norm_diff)
  also have "\<dots> \<le> sqrt (real (length ys)) * E" using d by (rule l2norm_bound)
  also have "\<dots> \<le> (3 / 2 * r1) * E"
    unfolding r1_def using sqrt_ratio[OF n] E by (rule mult_right_mono)
  finally have "\<bar>l2norm (map dh ys) - l2norm (map (\<lambda>y. y - ?m) ys)\<bar> / r1 \<le> 3 / 2 * E"
    using r1 by (simp add: pos_divide_le_eq algebra_simps)
  moreover have "\<bar>l2norm (map dh ys) / r1 - sample_std ys\<bar>
      = \<bar>l2norm (map dh ys) - l2norm (map (\<lambda>y. y - ?m) ys)\<bar> / r1"
    unfolding s using r1 by (simp add: diff_divide_distrib[symmetric])
  ultimately show ?thesis unfolding r1_def by simp
qed

lemma ratio_close:
  fixes s sg D t :: real
  assumes "0 \<le> s" and "s \<le> sg" and "0 < sg" and "sg / 2 \<le> D" and "\<bar>D - sg\<bar> \<le> t * sg"
  shows "\<bar>s / D - s / sg\<bar> \<le> 2 * t"
proof -
  have D: "0 < D" using assms(3,4) by linarith
  have t: "0 \<le> t * sg" using assms(5) by linarith
  have "s / D - s / sg = s * (sg - D) / (D * sg)"
    using D assms(3) by (simp add: field_simps)
  then have "\<bar>s / D - s / sg\<bar> = s * \<bar>D - sg\<bar> / (D * sg)"
    using D assms(1,3) by (simp add: abs_mult abs_minus_commute)
  also have "\<dots> \<le> sg * (t * sg) / (D * sg)"
    using assms(1,2,5) D assms(3) t by (intro divide_right_mono mult_mono) simp_all
  also have "\<dots> = (t * sg) / D" using assms(3) by simp
  also have "\<dots> \<le> (t * sg) / (sg / 2)"
    using frac_le[of "t * sg" "t * sg" "sg / 2" D] assms(3,4) t by simp
  also have "\<dots> = 2 * t" using assms(3) by simp
  finally show ?thesis .
qed

lemma output_error:
  fixes z d x D sg Ed M :: real
  assumes "0 < sg" and "sg / 2 \<le> D" and "\<bar>d - x\<bar> \<le> Ed" and "\<bar>d\<bar> \<le> 2 * M"
    and "\<bar>z - d / D\<bar> \<le> float32_u * \<bar>d / D\<bar> + float32_eta"
  shows "\<bar>z - x / D\<bar> \<le> 2 * (Ed + 2 * (float32_u * M)) / sg + float32_eta"
proof -
  define nm where "nm = Ed + 2 * (float32_u * M)"
  have D: "0 < D" using assms(1,2) by linarith
  have "float32_u * \<bar>d\<bar> \<le> float32_u * (2 * M)"
    using assms(4) float32_u_pos by (intro mult_left_mono) simp_all
  then have num: "\<bar>d - x\<bar> + float32_u * \<bar>d\<bar> \<le> nm"
    using assms(3) unfolding nm_def by linarith
  have "0 \<le> \<bar>d - x\<bar> + float32_u * \<bar>d\<bar>" using float32_u_pos by simp
  with num have num0: "0 \<le> nm" by linarith
  have "\<bar>z - x / D\<bar> \<le> \<bar>z - d / D\<bar> + \<bar>d / D - x / D\<bar>" by simp
  also have "\<bar>d / D - x / D\<bar> = \<bar>d - x\<bar> / D"
    using D by (simp add: diff_divide_distrib[symmetric])
  also have "\<bar>z - d / D\<bar> + \<bar>d - x\<bar> / D \<le> (float32_u * \<bar>d\<bar> / D + float32_eta) + \<bar>d - x\<bar> / D"
    using assms(5) D by simp
  also have "\<dots> = (\<bar>d - x\<bar> + float32_u * \<bar>d\<bar>) / D + float32_eta"
    by (simp add: add_divide_distrib)
  also have "\<dots> \<le> nm / D + float32_eta"
    using num D by (simp add: divide_right_mono)
  also have "\<dots> \<le> nm / (sg / 2) + float32_eta"
    using frac_le[of nm nm "sg / 2" D] assms(1,2) num0 by simp
  also have "nm / (sg / 2) = 2 * nm / sg" by simp
  finally show ?thesis unfolding nm_def .
qed

text \<open>
  The standardised tensor: every entry is within a few roundoffs of the entry of the
  exactly centred tensor divided by the computed denominator, and the computed denominator
  is within a few roundoffs of the exact one.
\<close>

lemma float32_2_75: "(2 :: real) ^ 75 \<in> float32_values"
  using float32_pow2[of 75] by simp

lemma standardise_tensor:
  assumes n: "2 \<le> length ys"
    and b: "\<forall>y\<in>set ys. \<bar>y\<bar> \<le> M"
    and rep: "\<And>k. k < 2 ^ 24 \<Longrightarrow> real k * M \<in> float32_values"
    and M50: "M \<le> 2 ^ 50"
    and eta: "float32_eta \<le> float32_u * M"
    and cond: "float32_tolerance (length ys) M (sample_std ys) \<le> 1"
  shows "\<exists>zs. map (\<lambda>x. fdiv32 (fsub32 x (t_mean (map Fin ys)))
                        (fadd32 (t_std (map Fin ys)) (Fin float32_eps))) (map Fin ys)
               = map Fin zs
     \<and> length zs = length ys
     \<and> \<bar>sample_mean zs\<bar> \<le> float32_tolerance (length ys) M (sample_std ys)
     \<and> \<bar>sample_std zs - sample_std ys / (sample_std ys + float32_eps)\<bar>
         \<le> float32_tolerance (length ys) M (sample_std ys)"
proof -
  let ?u = float32_u and ?h = float32_eta and ?e = float32_eps
  let ?n = "length ys"
  define N where "N = real (length ys)"
  define s where "s = sample_std ys"
  define m where "m = sample_mean ys"
  define sg where "sg = s + ?e"
  define kap where "kap = M / sg"
  define w where "w = N * ?u"
  define wk where "wk = w * kap"
  define uM where "uM = ?u * M"
  define tau where "tau = w + wk"
  from n have ne: "ys \<noteq> []" by auto
  have u: "0 < ?u" by (rule float32_u_pos)
  have h: "0 < ?h" by (rule float32_eta_pos)
  have e: "0 < ?e" by (rule float32_eps_pos)
  have N2: "2 \<le> N" unfolding N_def using n by simp
  have s0: "0 \<le> s" unfolding s_def by (rule sample_std_nonneg)
  have sg: "0 < sg" "?e \<le> sg" "s \<le> sg" using s0 e by (simp_all add: sg_def)
  have uM: "0 < uM" using eta h by (simp add: uM_def)
  then have M0: "0 < M" using u by (simp add: uM_def zero_less_mult_iff)
  have kap: "0 \<le> kap" using M0 sg(1) by (simp add: kap_def)
  have Mk: "M = kap * sg" using sg(1) by (simp add: kap_def)
  have w: "2 * ?u \<le> w" unfolding w_def using N2 u by (intro mult_right_mono) simp_all
  then have w0: "0 < w" using u by linarith
  have wk: "0 \<le> wk" using w0 kap by (simp add: wk_def)
  have tol: "float32_tolerance ?n M (sample_std ys) = 40 * tau"
    by (simp add: float32_tolerance_def tau_def wk_def w_def kap_def sg_def s_def N_def
        algebra_simps)
  have tau: "40 * tau \<le> 1" using cond unfolding tol .
  have w40: "w \<le> 1 / 40" using tau wk by (simp add: tau_def)
  have wM: "w * M = wk * sg" by (simp add: wk_def Mk)
  have NuM: "N * uM = wk * sg" using wM by (simp add: uM_def w_def algebra_simps)
  have "N \<le> 2 ^ 24 / 40" using w40 by (simp add: w_def float32_u_def field_simps)
  then have "real ?n < 2 ^ 24" unfolding N_def by simp
  then have n24: "?n < 2 ^ 24" by (simp add: of_nat_less_numeral_power_cancel_iff)
  have "real (?n + 4) \<le> 3 * N" using N2 by (simp add: N_def)
  then have "real (?n + 4) * ?u \<le> 3 * N * ?u" using u by (intro mult_right_mono) simp_all
  then have n4: "real (?n + 4) * ?u \<le> 3 * w" by (simp add: w_def)
  then have n4': "real (?n + 4) * ?u \<le> 1 / 2" using w40 by linarith
  from mean_error[OF n n24 b rep eta] obtain mh where
    mh: "t_mean (map Fin ys) = Fin mh" "\<bar>mh\<bar> \<le> M" "\<bar>mh - m\<bar> \<le> (N + 3) * uM"
    unfolding m_def N_def uM_def by blast
  define dh where "dh = (\<lambda>y. the_fin (fsub32 (Fin y) (Fin mh)))"
  define Ed where "Ed = (N + 6) * uM"
  have dev: "fsub32 (Fin y) (Fin mh) = Fin (dh y) \<and> \<bar>dh y\<bar> \<le> 2 * M \<and> \<bar>dh y - (y - m)\<bar> \<le> Ed"
    if "y \<in> set ys" for y
  proof -
    from that b have "\<bar>y\<bar> \<le> M" by blast
    from deviation_error[OF this mh(2) rep eta] obtain d where
      d: "fsub32 (Fin y) (Fin mh) = Fin d" "\<bar>d\<bar> \<le> 2 * M" "\<bar>d - (y - mh)\<bar> \<le> 3 * uM"
      unfolding uM_def by blast
    have "\<bar>d - (y - m)\<bar> \<le> \<bar>d - (y - mh)\<bar> + \<bar>mh - m\<bar>" by simp
    also have "\<dots> \<le> 3 * uM + (N + 3) * uM" using d(3) mh(3) by linarith
    also have "\<dots> = Ed" by (simp add: Ed_def algebra_simps)
    finally show ?thesis using d(1,2) by (simp add: dh_def)
  qed
  have Ed: "Ed \<le> 4 * (wk * sg)"
  proof -
    have "(N + 6) * uM \<le> (4 * N) * uM" using N2 uM by (intro mult_right_mono) simp_all
    then show ?thesis unfolding Ed_def using NuM by simp
  qed
  have Ed0: "0 \<le> Ed" unfolding Ed_def using N2 uM by (intro mult_nonneg_nonneg) simp_all
  have sqs: "map (\<lambda>x. fmul32 (fsub32 x (Fin mh)) (fsub32 x (Fin mh))) (map Fin ys)
      = map (\<lambda>y. fmul32 (Fin (dh y)) (Fin (dh y))) ys"
    using dev by simp
  have std: "t_std (map Fin ys)
      = fsqrt32 (fdiv32 (t_sum (map (\<lambda>y. fmul32 (Fin (dh y)) (Fin (dh y))) ys))
                        (round32 (real (length ys - 1))))"
    unfolding t_std_def Let_def mh(1) sqs length_map ..
  define a where "a = l2norm (map dh ys) / sqrt (real (length ys - 1))"
  define r where "r = sqrt ((2 * real ?n + 1) * ?h)"
  have dv2: "\<forall>y\<in>set ys. \<bar>dh y\<bar> \<le> 2 * M" using dev by blast
  from std_error[OF n n24 dv2 M50] obtain sh where
    sh: "t_std (map Fin ys) = Fin sh" "0 \<le> sh" "sh \<le> 2 ^ 63"
        "sh \<le> (1 + ?u) ^ (?n + 3) * (a + r + ?h)"
        "(1 - ?u) ^ (?n + 3) * a - r - ?h \<le> sh"
    unfolding std a_def r_def by blast
  have a0: "0 \<le> a" unfolding a_def using l2norm_nonneg[of "map dh ys"] by simp
  have "0 \<le> (2 * real ?n + 1) * ?h" using h by (intro mult_nonneg_nonneg) simp_all
  then have r0: "0 \<le> r" unfolding r_def by simp
  have "\<forall>y\<in>set ys. \<bar>dh y - (y - sample_mean ys)\<bar> \<le> Ed" using dev unfolding m_def by blast
  from deviation_norm[OF n this] have as: "\<bar>a - s\<bar> \<le> 3 / 2 * Ed"
    unfolding a_def s_def .
  from denominator_error[OF sh(2,3,4,5) a0 as s0 r0 n4'] obtain D where
    D: "fadd32 (Fin sh) (Fin ?e) = Fin D"
       "\<bar>D - sg\<bar> \<le> 2 * real (?n + 4) * ?u * sg + 2 * (3 / 2 * Ed) + 2 * (r + 2 * ?h)"
    unfolding sg_def by blast
  have Theta: "\<bar>D - sg\<bar> \<le> (12 * tau) * sg"
  proof -
    have "(real (?n + 4) * ?u) * sg \<le> (3 * w) * sg"
      using n4 sg(1) by (intro mult_right_mono) simp_all
    then have t1: "2 * real (?n + 4) * ?u * sg \<le> 6 * (w * sg)" by (simp add: algebra_simps)
    have "r + 2 * ?h \<le> ?u * ?e" unfolding r_def using n24 by (rule rho_small)
    also have "?u * ?e \<le> ?u * sg" using sg(2) u by (intro mult_left_mono) simp_all
    finally have "2 * (r + 2 * ?h) \<le> (2 * ?u) * sg" by simp
    also have "\<dots> \<le> w * sg" using w sg(1) by (intro mult_right_mono) simp_all
    finally have t3: "2 * (r + 2 * ?h) \<le> w * sg" .
    have "\<bar>D - sg\<bar> \<le> 7 * (w * sg) + 12 * (wk * sg)" using D(2) t1 t3 Ed by linarith
    also have "\<dots> \<le> 12 * (w * sg) + 12 * (wk * sg)" using w0 sg(1) by simp
    also have "\<dots> = (12 * tau) * sg" by (simp add: tau_def algebra_simps)
    finally show ?thesis .
  qed
  define ts where "ts = tau * sg"
  have "(40 * tau) * sg \<le> 1 * sg" using tau sg(1) by (intro mult_right_mono) simp_all
  then have ts: "40 * ts \<le> sg" by (simp add: ts_def)
  have "\<bar>D - sg\<bar> \<le> 12 * ts" using Theta by (simp add: ts_def)
  with ts have Dlow: "sg / 2 \<le> D" by linarith
  then have D0: "0 < D" using sg(1) by linarith
  define z where "z = (\<lambda>y. the_fin (fdiv32 (Fin (dh y)) (Fin D)))"
  define E' where "E' = 2 * (Ed + 2 * uM) / sg + ?h"
  have out: "fdiv32 (fsub32 (Fin y) (Fin mh)) (Fin D) = Fin (z y) \<and> \<bar>z y - (y - m) / D\<bar> \<le> E'"
    if "y \<in> set ys" for y
  proof -
    from dev[OF that] have d: "fsub32 (Fin y) (Fin mh) = Fin (dh y)" "\<bar>dh y\<bar> \<le> 2 * M"
      "\<bar>dh y - (y - m)\<bar> \<le> Ed" by simp_all
    have "1 / 2 ^ 24 \<le> D" using Dlow sg(2) by (simp add: float32_eps_def)
    then have "1 / D \<le> 2 ^ 24" using D0 by (simp add: field_simps)
    moreover have "\<bar>dh y\<bar> \<le> 2 ^ 51" using d(2) M50 by simp
    ultimately have "\<bar>dh y\<bar> * (1 / D) \<le> 2 ^ 51 * 2 ^ 24"
      using D0 by (intro mult_mono) simp_all
    then have "\<bar>dh y / D\<bar> \<le> 2 ^ 75" using D0 by simp
    from round32_error[OF float32_2_75 this] obtain zz where
      zz: "round32 (dh y / D) = Fin zz" "\<bar>zz - dh y / D\<bar> \<le> ?u * \<bar>dh y / D\<bar> + ?h"
      by blast
    have fz: "fdiv32 (Fin (dh y)) (Fin D) = Fin zz" using D0 by (simp add: fdiv32_def zz(1))
    then have zy: "z y = zz" by (simp add: z_def)
    from output_error[OF sg(1) Dlow d(3,2) zz(2)]
    have "\<bar>zz - (y - m) / D\<bar> \<le> E'" by (simp add: E'_def uM_def)
    then show ?thesis unfolding d(1) fz zy by simp
  qed
  have E': "E' \<le> 10 * wk + ?h"
  proof -
    have "(N + 8) * uM \<le> (5 * N) * uM" using N2 uM by (intro mult_right_mono) simp_all
    then have "Ed + 2 * uM \<le> 5 * (wk * sg)" using NuM by (simp add: Ed_def algebra_simps)
    then have "2 * (Ed + 2 * uM) / sg \<le> 2 * (5 * (wk * sg)) / sg"
      using sg(1) by (intro divide_right_mono) simp_all
    also have "\<dots> = 10 * wk" using sg(1) by simp
    finally show ?thesis by (simp add: E'_def)
  qed
  have hw: "?h \<le> w" using w by (simp add: float32_eta_def float32_u_def)
  let ?G = "\<lambda>y. (y - sample_mean ys) / D"
  have close: "\<forall>y\<in>set ys. \<bar>z y - ?G y\<bar> \<le> E'" using out unfolding m_def by blast
  have G0: "sample_mean (map ?G ys) = 0" using ne by (rule sample_mean_standardised)
  have Gs: "sample_std (map ?G ys) = s / D"
    unfolding s_def using ne D0 by (rule sample_std_standardised)
  from sample_moments_perturb[OF n close]
  have pm: "\<bar>sample_mean (map z ys)\<bar> \<le> E'"
    and ps: "\<bar>sample_std (map z ys) - s / D\<bar> \<le> 3 / 2 * E'"
    unfolding G0 Gs by simp_all
  have rc: "\<bar>s / D - s / sg\<bar> \<le> 2 * (12 * tau)"
    using s0 sg(3) sg(1) Dlow Theta by (rule ratio_close)
  have E1: "E' \<le> 10 * tau" using E' hw wk w0 unfolding tau_def by simp
  have tau0: "0 \<le> tau" using wk w0 unfolding tau_def by simp
  have mean_ok: "\<bar>sample_mean (map z ys)\<bar> \<le> 40 * tau"
    using pm E1 tau0 by linarith
  have "\<bar>sample_std (map z ys) - s / sg\<bar>
      \<le> \<bar>sample_std (map z ys) - s / D\<bar> + \<bar>s / D - s / sg\<bar>" by simp
  also have "\<dots> \<le> 3 / 2 * E' + 2 * (12 * tau)" using ps rc by (rule add_mono)
  also have "\<dots> \<le> 40 * tau" using E1 tau0 by linarith
  finally have std_ok: "\<bar>sample_std (map z ys) - s / sg\<bar> \<le> 40 * tau" .
  have eq: "map (\<lambda>x. fdiv32 (fsub32 x (t_mean (map Fin ys)))
                        (fadd32 (t_std (map Fin ys)) (Fin ?e))) (map Fin ys)
      = map Fin (map z ys)"
    unfolding mh(1) sh(1) D(1) using out by simp
  show ?thesis
    unfolding tol using eq mean_ok std_ok
    by (intro exI[of _ "map z ys"]) (simp add: s_def sg_def)
qed

lemma tensor_values_bounded:
  assumes "a \<in> float32_values" and "\<forall>x\<in>set xs. \<bar>x\<bar> \<le> a"
  shows "torch_tensor xs = map Fin (tensor_values xs)"
    and "\<forall>y\<in>set (tensor_values xs). \<bar>y\<bar> \<le> a"
proof -
  have r: "round32 x = Fin (the_fin (round32 x)) \<and> \<bar>the_fin (round32 x)\<bar> \<le> a"
    if "x \<in> set xs" for x
  proof -
    from round32_abs_le[OF assms(1), of x] assms(2) that
    obtain y where "round32 x = Fin y" "\<bar>y\<bar> \<le> a" by blast
    then show ?thesis by simp
  qed
  then show "torch_tensor xs = map Fin (tensor_values xs)"
    by (simp add: torch_tensor_def tensor_values_def)
  show "\<forall>y\<in>set (tensor_values xs). \<bar>y\<bar> \<le> a"
    using r by (simp add: torch_tensor_def tensor_values_def)
qed

lemma scale_facts:
  assumes "- 126 \<le> p" and "p \<le> 50"
  shows "k < 2 ^ 24 \<Longrightarrow> real k * power_int 2 p \<in> float32_values"
    and "power_int 2 p \<le> (2 :: real) ^ 50"
    and "float32_eta \<le> float32_u * power_int 2 p"
proof -
  show "real k * power_int 2 p \<in> float32_values" if "k < 2 ^ 24"
    using float32_valuesI[of "int k" p] that assms by simp
  have "power_int (2 :: real) p \<le> power_int 2 50"
    using assms(2) by (intro power_int_increasing) simp_all
  then show "power_int 2 p \<le> (2 :: real) ^ 50" by simp
  have "power_int (2 :: real) (- 150) \<le> power_int 2 (p - 24)"
    using assms(1) by (intro power_int_increasing) simp_all
  also have "\<dots> = float32_u * power_int 2 p"
    by (simp add: power_int_diff float32_u_def)
  finally show "float32_eta \<le> float32_u * power_int 2 p"
    by (simp add: float32_eta_def power_int_minus)
qed

lemma sample_std_123: "sample_std [1, 2, 3] = 1"
  by (simp add: sample_std_def sample_mean_def)

lemma tensor_values_123: "tensor_values [1, 2, 3] = [1, 2, 3]"
  by (simp add: tensor_values_def torch_tensor_def)

lemma tolerance_123:
  "float32_tolerance (length [1, 2, 3 :: real]) (power_int 2 2) 1 \<le> 1 / 10000"
  by (simp add: float32_tolerance_def float32_u_def float32_eps_def field_simps)

text \<open>
  Claim C4, as amended. For an input of \<open>n \<ge> 2\<close> numbers of magnitude at most \<open>M = 2 ^ p\<close>
  with \<open>-126 \<le> p \<le> 50\<close>, let \<open>s\<close> be the standard deviation of the tensor made of it and
  \<open>tol = 40 * n * 2 ^ -24 * (1 + M / (s + eps))\<close>. If \<open>tol \<le> 1\<close> then the output is finite,
  its mean is within \<open>tol\<close> of \<open>0\<close> and its standard deviation is within \<open>tol\<close> of
  \<open>s / (s + eps)\<close>, hence within \<open>tol + eps / (s + eps)\<close> of \<open>1\<close>. Mean and standard deviation
  of the output are those of its numbers in exact arithmetic.
\<close>

theorem standardise_returns_moments:
  assumes "2 \<le> length xs" and "- 126 \<le> p" and "p \<le> 50"
    and "\<forall>x\<in>set xs. \<bar>x\<bar> \<le> power_int 2 p"
    and "float32_tolerance (length xs) (power_int 2 p) (sample_std (tensor_values xs)) \<le> 1"
  shows "\<exists>zs. standardise_returns xs = map Fin zs \<and> length zs = length xs
     \<and> \<bar>sample_mean zs\<bar>
         \<le> float32_tolerance (length xs) (power_int 2 p) (sample_std (tensor_values xs))
     \<and> \<bar>sample_std zs
          - sample_std (tensor_values xs) / (sample_std (tensor_values xs) + float32_eps)\<bar>
         \<le> float32_tolerance (length xs) (power_int 2 p) (sample_std (tensor_values xs))
     \<and> \<bar>sample_std zs - 1\<bar>
         \<le> float32_tolerance (length xs) (power_int 2 p) (sample_std (tensor_values xs))
           + float32_eps / (sample_std (tensor_values xs) + float32_eps)"
proof -
  let ?ys = "tensor_values xs"
  let ?M = "power_int 2 p :: real"
  have len: "length ?ys = length xs" by (simp add: tensor_values_def torch_tensor_def)
  have MF: "?M \<in> float32_values" using scale_facts(1)[OF assms(2,3), of 1] by simp
  note t = tensor_values_bounded[OF MF assms(4)]
  have n: "2 \<le> length ?ys" using assms(1) len by simp
  have cond: "float32_tolerance (length ?ys) ?M (sample_std ?ys) \<le> 1"
    using assms(5) len by simp
  from standardise_tensor[OF n t(2) scale_facts(1)[OF assms(2,3)] scale_facts(2)[OF assms(2,3)]
      scale_facts(3)[OF assms(2,3)] cond]
  obtain zs where zs: "standardise_returns xs = map Fin zs" "length zs = length xs"
    "\<bar>sample_mean zs\<bar> \<le> float32_tolerance (length xs) ?M (sample_std ?ys)"
    "\<bar>sample_std zs - sample_std ?ys / (sample_std ?ys + float32_eps)\<bar>
       \<le> float32_tolerance (length xs) ?M (sample_std ?ys)"
    unfolding standardise_returns_def Let_def round32_eps t(1)[symmetric] len by blast
  define q where "q = float32_eps / (sample_std ?ys + float32_eps)"
  have pos: "0 < sample_std ?ys + float32_eps"
    using sample_std_nonneg[of ?ys] float32_eps_pos by linarith
  then have q0: "0 \<le> q" using float32_eps_pos by (simp add: q_def)
  have "sample_std ?ys / (sample_std ?ys + float32_eps) = 1 - q"
    using pos by (simp add: q_def field_simps)
  with zs(4) q0 have "\<bar>sample_std zs - 1\<bar>
      \<le> float32_tolerance (length xs) ?M (sample_std ?ys) + q"
    by linarith
  then have "\<bar>sample_std zs - 1\<bar>
      \<le> float32_tolerance (length xs) ?M (sample_std ?ys)
        + float32_eps / (sample_std ?ys + float32_eps)"
    unfolding q_def .
  with zs show ?thesis by blast
qed

text \<open>
  For \<open>[1, 2, 3]\<close> the tolerance is below \<open>1/10000\<close>, and \<open>s = 1\<close>.
\<close>

theorem standardise_returns_moments_witness:
  "2 \<le> length [1, 2, 3 :: real] \<and> (- 126 :: int) \<le> 2 \<and> (2 :: int) \<le> 50
   \<and> list_all (\<lambda>x. \<bar>x\<bar> \<le> power_int 2 2) [1, 2, 3 :: real]
   \<and> float32_tolerance (length [1, 2, 3 :: real]) (power_int 2 2)
         (sample_std (tensor_values [1, 2, 3])) \<le> 1 / 10000
   \<and> (\<exists>zs. standardise_returns [1, 2, 3] = map Fin zs
          \<and> \<bar>sample_mean zs\<bar> \<le> 1 / 10000
          \<and> \<bar>sample_std zs - 1 / (1 + float32_eps)\<bar> \<le> 1 / 10000)"
proof -
  have t: "float32_tolerance (length [1, 2, 3 :: real]) (power_int 2 2)
         (sample_std (tensor_values [1, 2, 3])) \<le> 1 / 10000"
    using tolerance_123 by (simp add: tensor_values_123 sample_std_123)
  have b: "\<forall>x\<in>set [1, 2, 3 :: real]. \<bar>x\<bar> \<le> power_int 2 2" by simp
  from standardise_returns_moments[of "[1, 2, 3]" 2] b t
  obtain zs where zs: "standardise_returns [1, 2, 3] = map Fin zs"
    "\<bar>sample_mean zs\<bar>
       \<le> float32_tolerance (length [1, 2, 3 :: real]) (power_int 2 2)
            (sample_std (tensor_values [1, 2, 3]))"
    "\<bar>sample_std zs - sample_std (tensor_values [1, 2, 3])
         / (sample_std (tensor_values [1, 2, 3]) + float32_eps)\<bar>
       \<le> float32_tolerance (length [1, 2, 3 :: real]) (power_int 2 2)
            (sample_std (tensor_values [1, 2, 3]))"
    by auto
  from zs(2) t have m: "\<bar>sample_mean zs\<bar> \<le> 1 / 10000" by linarith
  from zs(3) t have "\<bar>sample_std zs - 1 / (1 + float32_eps)\<bar> \<le> 1 / 10000"
    by (simp add: tensor_values_123 sample_std_123)
  with zs(1) m t show ?thesis by auto
qed


section \<open>Properties of the Evaluation Driver\<close>












lemma np_mean_Fin: "xs \<noteq> [] \<Longrightarrow> np_mean xs = Fin (sum_list xs / real (length xs))"
  by (simp add: np_mean_def)




section \<open>Properties of the Training Driver\<close>

lemma rolling_window_snoc:
  "rolling_window (xs @ [x]) = append_right x (rolling_window xs)"
  by (simp add: rolling_window_def)

lemma maxlen_append_right: "maxlen (append_right x d) = maxlen d"
  by (simp add: append_right_def Let_def)

lemma maxlen_rolling_window: "maxlen (rolling_window xs) = 100"
  by (induction xs rule: rev_induct)
     (simp_all add: rolling_window_snoc maxlen_append_right, simp add: rolling_window_def)

lemma items_rolling_window: "items (rolling_window xs) = drop (length xs - 100) xs"
proof (induction xs rule: rev_induct)
  case Nil
  show ?case by (simp add: rolling_window_def)
next
  case (snoc x xs)
  show ?case
  proof (cases "length xs < 100")
    case True
    then show ?thesis
      using snoc by (simp add: rolling_window_snoc append_right_def Let_def maxlen_rolling_window)
  next
    case False
    then have "length (drop (length xs - 100) xs) = 100" by simp
    moreover have "tl (drop (length xs - 100) xs @ [x]) = drop (Suc (length xs) - 100) xs @ [x]"
    proof -
      have ne: "drop (length xs - 100) xs \<noteq> []" using False by simp
      have s: "Suc (length xs) - 100 = Suc (length xs - 100)" using False by simp
      have "tl (drop (length xs - 100) xs) = drop (Suc (length xs - 100)) xs"
        by (simp add: drop_Suc tl_drop)
      then show ?thesis using ne unfolding s by (cases "drop (length xs - 100) xs") simp_all
    qed
    ultimately show ?thesis
      using snoc False
      by (simp add: rolling_window_snoc append_right_def Let_def maxlen_rolling_window)
  qed
qed

lemma stop_early_window:
  "stop_early X (Some threshold) (rolling_window xs) = window_reached X threshold xs"
  by (simp add: stop_early_def window_reached_def maxlen_rolling_window)

lemma run_episodes_length:
  "run_episodes X p v po vo max_steps gamma n w = Inr (ss, w') \<Longrightarrow> length ss = n"
  by (induction n arbitrary: ss w') (auto split: sum.splits prod.splits)

lemma run_episodes_Suc:
  assumes "run_episodes X p v po vo max_steps gamma (Suc n) w = Inr (ss, w'')"
  obtains ss0 w' sc where
    "run_episodes X p v po vo max_steps gamma n w = Inr (ss0, w')"
    "train_episode X p v po vo max_steps gamma w' = Inr (sc, w'')"
    "ss = ss0 @ [sc]"
  using assms by (auto split: sum.splits prod.splits)

lemma run_episodes_prefix:
  "run_episodes X p v po vo max_steps gamma k w = Inr (ss, wk) \<Longrightarrow> j \<le> k \<Longrightarrow>
   \<exists>wj. run_episodes X p v po vo max_steps gamma j w = Inr (take j ss, wj)"
proof (induction k arbitrary: ss wk)
  case 0
  then show ?case by simp
next
  case (Suc k)
  from Suc.prems(1) obtain ss0 w' sc where
    r: "run_episodes X p v po vo max_steps gamma k w = Inr (ss0, w')"
    and ss: "ss = ss0 @ [sc]"
    by (rule run_episodes_Suc)
  have l: "length ss0 = k" using r by (rule run_episodes_length)
  show ?case
  proof (cases "j = Suc k")
    case True
    with Suc.prems(1) l ss show ?thesis by simp
  next
    case False
    with Suc.prems(2) have "j \<le> k" by simp
    from Suc.IH[OF r this] l ss \<open>j \<le> k\<close> show ?thesis by simp
  qed
qed

lemma train_loop_reaches:
  assumes thr: "log_interval \<noteq> 0"
    and full: "run_episodes X p v po vo max_steps gamma k w0 = Inr (ss, wk)"
    and hit: "window_reached X threshold ss"
    and nohit: "\<forall>i<k. \<not> window_reached X threshold (take i ss)"
  shows "j < k \<Longrightarrow> k \<le> j + n \<Longrightarrow>
         run_episodes X p v po vo max_steps gamma j w0 = Inr (take j ss, wj) \<Longrightarrow>
         train_loop X p v po vo max_steps gamma log_interval (Some threshold) n i_episode
           (rolling_window (take j ss)) (take j ss) wj = Inr (ss, wk)"
proof (induction n arbitrary: j wj i_episode)
  case 0
  then show ?case by simp
next
  case (Suc n)
  have lk: "length ss = k" using full by (rule run_episodes_length)
  from run_episodes_prefix[OF full, of "Suc j"] Suc.prems(1)
  obtain wj' where r': "run_episodes X p v po vo max_steps gamma (Suc j) w0
      = Inr (take (Suc j) ss, wj')"
    by auto
  then obtain ss0 w' sc where
    a: "run_episodes X p v po vo max_steps gamma j w0 = Inr (ss0, w')"
    and b: "train_episode X p v po vo max_steps gamma w' = Inr (sc, wj')"
    and c: "take (Suc j) ss = ss0 @ [sc]"
    by (rule run_episodes_Suc)
  from a Suc.prems(3) have eq: "ss0 = take j ss" "w' = wj" by simp_all
  have te: "train_episode X p v po vo max_steps gamma wj = Inr (sc, wj')"
    using b eq by simp
  have snoc: "take j ss @ [sc] = take (Suc j) ss" using c eq by simp
  have win: "append_right sc (rolling_window (take j ss)) = rolling_window (take (Suc j) ss)"
    by (simp add: rolling_window_snoc[symmetric] snoc)
  show ?case
  proof (cases "Suc j = k")
    case True
    then have all: "take (Suc j) ss = ss" using lk by simp
    from True full r' all have "wj' = wk" by simp
    then show ?thesis
      using te hit by (simp add: win snoc all stop_early_window)
  next
    case False
    with Suc.prems(1) have lt: "Suc j < k" by simp
    with nohit have nh: "\<not> window_reached X threshold (take (Suc j) ss)" by blast
    have "k \<le> Suc j + n" using Suc.prems(2) by simp
    from Suc.IH[OF lt this r', of "i_episode + 1"]
    show ?thesis
      using te nh thr by (simp add: win snoc stop_early_window)
  qed
qed

text \<open>
  Claim C6. With an early-stopping threshold configured, let episode \<open>k\<close> (at most
  \<open>num_episodes\<close>) be the first at whose end the rolling window holds \<open>100\<close> scores with
  mean at least the threshold, the episodes up to \<open>k\<close> having run without an exception.
  The mean is the one the code compares, the value \<open>np.mean\<close> computes in \<open>float64\<close>,
  whatever its rounding: the theorem holds for every such function.
  Then the Training Driver leaves its loop at episode \<open>k\<close> and returns the scores of
  exactly these \<open>k\<close> episodes, one entry each; the window is the last \<open>100\<close> of them.
  The remainder by \<open>log_interval\<close> is computed at the end of every episode that does not
  stop, so \<open>log_interval\<close> is not zero in any run that gets past its first episode.
\<close>

theorem train_agent_early_stop:
  assumes "early_stopping_threshold = Some threshold"
    and "log_interval \<noteq> 0"
    and "k \<le> nat num_episodes"
    and "run_episodes X policy value_function policy_optimizer value_optimizer max_steps gamma k w
           = Inr (scores, w')"
    and "window_reached X threshold scores"
    and "\<forall>j<k. \<not> window_reached X threshold (take j scores)"
  shows "train_agent X policy value_function policy_optimizer value_optimizer num_episodes
           max_steps gamma log_interval early_stopping_threshold w = Inr (scores, w')
         \<and> length scores = k
         \<and> length (items (rolling_window scores)) = 100
         \<and> items (rolling_window scores) = drop (k - 100) scores"
proof -
  have lk: "length scores = k" using assms(4) by (rule run_episodes_length)
  have "k \<noteq> 0"
  proof
    assume "k = 0"
    with lk have "scores = []" by simp
    with assms(5) show False by (simp add: window_reached_def rolling_window_def)
  qed
  then have pos: "0 < k" by simp
  have start: "run_episodes X policy value_function policy_optimizer value_optimizer max_steps
      gamma 0 w = Inr (take 0 scores, w)" by simp
  have "train_loop X policy value_function policy_optimizer value_optimizer max_steps gamma
      log_interval (Some threshold) (nat num_episodes) 1
      (rolling_window (take 0 scores)) (take 0 scores) w = Inr (scores, w')"
    using train_loop_reaches[OF assms(2) assms(4) assms(5) assms(6) pos _ start, of "nat num_episodes" 1]
      assms(3) by simp
  then have "train_agent X policy value_function policy_optimizer value_optimizer num_episodes
           max_steps gamma log_interval early_stopping_threshold w = Inr (scores, w')"
    by (simp add: train_agent_def assms(1) rolling_window_def)
  moreover have "length (items (rolling_window scores)) = 100"
    using assms(5) by (simp add: window_reached_def)
  ultimately show ?thesis using lk by (simp add: items_rolling_window)
qed

lemma trajectory_loop_unfold:
  assumes "0 < n"
  shows "trajectory_loop X policy value_function n state (log_probs, rewards, state_values) w =
     (let ((log_prob, reward, vl, dn), next_state, w') =
            trajectory_step X policy value_function state w;
          acc' = (log_probs @ [log_prob], rewards @ [reward], state_values @ [vl])
      in if dn then (acc', w')
         else trajectory_loop X policy value_function (n - 1) next_state acc' w')"
proof (cases n)
  case 0
  with assms show ?thesis by simp
next
  case (Suc m)
  show ?thesis unfolding Suc by (simp add: Let_def split: prod.splits)
qed

lemma staged_trajectory:
  "generate_trajectory (staged 50 230) LL_policy LL_value 1000 (world0\<lparr>sim := n, grad := g\<rparr>)
     = (([\<lparr>tval = Fin 0, tgrad = (\<lambda>m. None)(LL_policy \<mapsto> ())\<rparr>], [staged_score n],
         [\<lparr>tval = Fin 0, tgrad = (\<lambda>m. None)(LL_value \<mapsto> ())\<rparr>]),
        world0\<lparr>sim := Suc n, grad := g\<rparr>)"
  by (simp add: generate_trajectory_def trajectory_loop_unfold trajectory_step_def act_def
                forward_value_def staged_def world0_def staged_score_def)

lemma staged_returns:
  "calculate_discounted_returns [x :: real] 1000 gamma = Inr \<lparr>items = [x], maxlen = 1000\<rparr>"
  using calculate_discounted_returns_take[of 1000 "[x]" gamma] by simp

lemma staged_episode:
  "\<exists>g'. train_episode (staged 50 230) LL_policy LL_value (Adam LL_policy) (Adam LL_value)
            1000 gamma (world0\<lparr>sim := n, grad := g\<rparr>)
        = Inr (staged_score n, world0\<lparr>sim := Suc n, grad := g'\<rparr>)"
  apply (simp add: train_episode_def staged_trajectory staged_returns standardise_singleton)
  apply (simp add: optimise_value_function_def optimise_policy_def stack_squeeze_def mse_loss_def
      broadcast_def backward_def zero_grad_def opt_step_def t_total_def t_add_def t_mul_def
      t_sub_def t_neg_def t_div_const_def t_const_def t_detach_def staged_def world0_def)
  apply (simp add: fun_eq_iff)
  done


lemma staged_run:
  "\<exists>g. run_episodes (staged 50 230) LL_policy LL_value (Adam LL_policy) (Adam LL_value)
          1000 gamma n world0
        = Inr (map staged_score [0..<n], world0\<lparr>sim := n, grad := g\<rparr>)"
proof (induction n)
  case 0
  have "world0 = world0\<lparr>sim := 0, grad := (\<lambda>m. None)\<rparr>" by (simp add: world0_def)
  then show ?case by (intro exI[of _ "\<lambda>m. None"]) simp
next
  case (Suc n)
  then obtain g where
    r: "run_episodes (staged 50 230) LL_policy LL_value (Adam LL_policy) (Adam LL_value)
          1000 gamma n world0
        = Inr (map staged_score [0..<n], world0\<lparr>sim := n, grad := g\<rparr>)" ..
  from staged_episode[where gamma = gamma and n = n and g = g] obtain g' where
    e: "train_episode (staged 50 230) LL_policy LL_value (Adam LL_policy) (Adam LL_value)
            1000 gamma (world0\<lparr>sim := n, grad := g\<rparr>)
        = Inr (staged_score n, world0\<lparr>sim := Suc n, grad := g'\<rparr>)" ..
  show ?case by (intro exI[of _ g']) (simp add: r e)
qed

lemma staged_sum:
  assumes "a \<le> 50" and "50 \<le> b"
  shows "sum_list (map staged_score [a..<b]) = 230 * real (b - 50)"
proof -
  have sp: "[a..<b] = [a..<50] @ [50..<b]"
    using assms by (metis le_Suc_ex upt_add_eq_append)
  have z: "map staged_score [a..<50] = map (\<lambda>i. 0) [a..<50]"
    by (rule map_cong) (simp_all add: staged_score_def)
  have f: "map staged_score [50..<b] = map (\<lambda>i. 230) [50..<b]"
    by (rule map_cong) (simp_all add: staged_score_def)
  show ?thesis
    unfolding sp map_append sum_list_append z f by (simp add: sum_list_triv)
qed

lemma staged_mean: "np_mean_float (staged 50 230) xs = np_mean xs"
  by (simp add: staged_def)

lemma staged_window:
  assumes "j \<le> 150"
  shows "window_reached (staged 50 230) 230 (take j (map staged_score [0..<150])) = (j = 150)"
proof -
  have t: "take j (map staged_score [0..<150]) = map staged_score [0..<j]"
    using assms by (simp add: take_map)
  have d: "drop (j - 100) (map staged_score [0..<j]) = map staged_score [j - 100..<j]"
    by (simp add: drop_map)
  show ?thesis
  proof (cases "j < 100")
    case True
    then show ?thesis
      unfolding window_reached_def items_rolling_window t by simp
  next
    case False
    then have l: "length (map staged_score [j - 100..<j]) = 100" by simp
    have ne: "map staged_score [j - 100..<j] \<noteq> []" using False by simp
    have s: "sum_list (map staged_score [j - 100..<j]) = 230 * real (j - 50)"
      using False assms by (intro staged_sum) simp_all
    have m: "np_mean (map staged_score [j - 100..<j]) = Fin (230 * real (j - 50) / 100)"
      unfolding np_mean_Fin[OF ne] s l by simp
    have "window_reached (staged 50 230) 230 (map staged_score [0..<j])
        = (230 \<le> 230 * real (j - 50) / 100)"
      unfolding window_reached_def items_rolling_window length_map length_upt diff_zero d
        staged_mean m
      using l by simp
    also have "\<dots> = (j = 150)" using False assms by auto
    finally show ?thesis unfolding t .
  qed
qed

text \<open>
  The run of the notebook's call (\<open>10000\<close> episodes, \<open>max_steps = 1000\<close>, \<open>gamma = 0.99\<close>,
  \<open>log_interval = 100\<close>, threshold \<open>230\<close>) on the staged simulator: fifty episodes of
  score \<open>0\<close>, then score \<open>230\<close>. The window mean reaches \<open>230\<close> at episode \<open>150\<close> and not
  before, and the driver returns \<open>150\<close> scores.
\<close>

theorem train_agent_early_stop_witness:
  "Some (230 :: real) = Some 230 \<and> (100 :: int) \<noteq> 0 \<and> (150 :: nat) \<le> nat 10000
   \<and> window_reached (staged 50 230) 230 (map staged_score [0..<150])
   \<and> list_all (\<lambda>j. \<not> window_reached (staged 50 230) 230 (take j (map staged_score [0..<150])))
        [0..<150]
   \<and> (\<exists>w'. run_episodes (staged 50 230) LL_policy LL_value (Adam LL_policy) (Adam LL_value)
              1000 (99 / 100) 150 world0 = Inr (map staged_score [0..<150], w')
          \<and> train_agent (staged 50 230) LL_policy LL_value (Adam LL_policy) (Adam LL_value)
              10000 1000 (99 / 100) 100 (Some 230) world0 = Inr (map staged_score [0..<150], w'))
   \<and> length (map staged_score [0..<150]) = 150"
proof -
  let ?ss = "map staged_score [0..<150]"
  have hit: "window_reached (staged 50 230) 230 ?ss"
    using staged_window[of 150] by simp
  have nohit: "\<forall>j<150. \<not> window_reached (staged 50 230) 230 (take j ?ss)"
    using staged_window by auto
  from staged_run[where gamma = "99 / 100" and n = 150] obtain w' where
    r: "run_episodes (staged 50 230) LL_policy LL_value (Adam LL_policy) (Adam LL_value)
              1000 (99 / 100) 150 world0 = Inr (?ss, w')"
    by blast
  have "train_agent (staged 50 230) LL_policy LL_value (Adam LL_policy) (Adam LL_value)
              10000 1000 (99 / 100) 100 (Some 230) world0 = Inr (?ss, w')"
    using train_agent_early_stop[of "Some 230" 230 100 150 10000 "staged 50 230" LL_policy
            LL_value "Adam LL_policy" "Adam LL_value" 1000 "99 / 100" world0 ?ss w']
          r hit nohit
    by simp
  with r hit nohit show ?thesis
    by (auto simp: list_all_iff)
qed

section \<open>Properties of the optimisation step\<close>

lemma grad_join_None_right: "grad_join f x None = x"
  by (cases x) simp_all

lemma zero_grad_frame:
  "params (zero_grad opt w) = params w \<and> adam_state (zero_grad opt w) = adam_state w
   \<and> sim (zero_grad opt w) = sim w \<and> torch_rng (zero_grad opt w) = torch_rng w
   \<and> (\<forall>m. m \<noteq> owner opt \<longrightarrow> grad (zero_grad opt w) m = grad w m)"
  by (simp add: zero_grad_def)

lemma backward_frame:
  "backward X loss w = Inr w' \<Longrightarrow>
   params w' = params w \<and> adam_state w' = adam_state w \<and> sim w' = sim w
   \<and> torch_rng w' = torch_rng w
   \<and> (\<forall>m. tgrad loss m = None \<longrightarrow> grad w' m = grad w m)"
  by (auto simp: backward_def grad_join_None_right split: if_splits)

lemma opt_step_frame:
  "sim (opt_step X opt w) = sim w \<and> torch_rng (opt_step X opt w) = torch_rng w
   \<and> grad (opt_step X opt w) = grad w
   \<and> (\<forall>m. m \<noteq> owner opt \<longrightarrow>
         params (opt_step X opt w) m = params w m
       \<and> adam_state (opt_step X opt w) m = adam_state w m)"
  by (simp add: opt_step_def Let_def split: option.splits prod.splits)

lemma update_frame:
  assumes "backward X loss (zero_grad opt w) = Inr w1"
  shows "sim (opt_step X opt w1) = sim w \<and> torch_rng (opt_step X opt w1) = torch_rng w
   \<and> (\<forall>m. m \<noteq> owner opt \<longrightarrow>
         params (opt_step X opt w1) m = params w m
       \<and> adam_state (opt_step X opt w1) m = adam_state w m
       \<and> (tgrad loss m = None \<longrightarrow> grad (opt_step X opt w1) m = grad w m))"
  using backward_frame[OF assms] zero_grad_frame[of opt w] opt_step_frame[of X opt w1]
  by simp

lemma tgrad_t_add:
  "tgrad (t_add X a b) m = None \<longleftrightarrow> tgrad a m = None \<and> tgrad b m = None"
  by (cases "tgrad a m"; cases "tgrad b m") (simp_all add: t_add_def)

lemma tgrad_foldl_t_add:
  "tgrad (foldl (t_add X) a ts) m = None \<longleftrightarrow> tgrad a m = None \<and> (\<forall>t\<in>set ts. tgrad t m = None)"
  by (induction ts arbitrary: a) (auto simp: tgrad_t_add)

lemma tgrad_t_total:
  "tgrad (t_total X ts) m = None \<longleftrightarrow> (\<forall>t\<in>set ts. tgrad t m = None)"
  by (simp add: t_total_def tgrad_foldl_t_add t_const_def)

lemma tgrad_policy_term:
  "tgrad advantage m = None \<Longrightarrow>
   tgrad (t_mul X (t_neg X log_prob) advantage) m = None \<longleftrightarrow> tgrad log_prob m = None"
  by (cases "tgrad log_prob m") (simp_all add: t_mul_def t_neg_def)

lemma tgrad_t_detach: "tgrad (t_detach t) m = None"
  by (simp add: t_detach_def)

lemma optimise_policy_cases:
  fixes X :: "('e, 'o, 'a, 'g, 'p, 'm) externals"
  assumes "optimise_policy X opt log_probs returns state_values w = Inr w''"
  obtains advantages w1 where
    "backward X (t_total X (map (\<lambda>(log_prob, advantage). t_mul X (t_neg X log_prob) advantage)
                              (zip log_probs (map t_detach advantages))))
       (zero_grad opt w) = Inr w1"
    and "w'' = opt_step X opt w1"
proof -
  from assms obtain stacked where s: "stack_squeeze state_values = Inr stacked"
    by (auto simp: optimise_policy_def split: sum.splits)
  obtain pairs where
    p: "broadcast (map t_const returns :: 'p tensor list) (map t_detach stacked) = Inr pairs"
  proof (cases "broadcast (map t_const returns :: 'p tensor list) (map t_detach stacked)")
    case (Inl e)
    with assms s show ?thesis by (simp add: optimise_policy_def)
  next
    case (Inr pairs)
    then show ?thesis by (rule that)
  qed
  let ?adv = "map (\<lambda>(r, v). t_sub X r v) pairs"
  let ?loss = "t_total X (map (\<lambda>(log_prob, advantage). t_mul X (t_neg X log_prob) advantage)
                              (zip log_probs (map t_detach ?adv)))"
  from assms have "(case backward X ?loss (zero_grad opt w) of
                      Inl e \<Rightarrow> Inl e | Inr w' \<Rightarrow> Inr (opt_step X opt w')) = Inr w''"
    unfolding optimise_policy_def Let_def s p sum.case
    by (simp split: if_splits)
  then obtain w1 where "backward X ?loss (zero_grad opt w) = Inr w1"
    and "w'' = opt_step X opt w1"
    by (cases "backward X ?loss (zero_grad opt w)") simp_all
  then show ?thesis by (rule that)
qed

text \<open>
  Claim C7. In an episode's update the critic's step, \<open>optimise_value_function\<close> with the
  optimiser built over \<open>LL_value\<close>, leaves the parameters (and optimiser state) of every
  other network as they were, those of \<open>LL_policy\<close> in particular; the actor's step,
  \<open>optimise_policy\<close> with the optimiser built over \<open>LL_policy\<close>, leaves those of
  \<open>LL_value\<close> as they were. Neither touches the simulator or the random generator.
  The actor's loss is built from detached advantages, so when the log-probabilities
  carry no graph into \<open>LL_value\<close> its gradient buffer is left alone as well.
\<close>

theorem optimise_no_cross_talk:
  "(optimise_value_function X (Adam LL_value) returns state_values w = Inr w' \<longrightarrow>
      params w' LL_policy = params w LL_policy
      \<and> (\<forall>m. m \<noteq> LL_value \<longrightarrow> params w' m = params w m \<and> adam_state w' m = adam_state w m)
      \<and> sim w' = sim w \<and> torch_rng w' = torch_rng w)
   \<and> (optimise_policy X (Adam LL_policy) log_probs returns state_values w = Inr w'' \<longrightarrow>
      params w'' LL_value = params w LL_value
      \<and> (\<forall>m. m \<noteq> LL_policy \<longrightarrow> params w'' m = params w m \<and> adam_state w'' m = adam_state w m)
      \<and> sim w'' = sim w \<and> torch_rng w'' = torch_rng w
      \<and> ((\<forall>t\<in>set log_probs. tgrad t LL_value = None) \<longrightarrow> grad w'' LL_value = grad w LL_value))"
proof (intro conjI impI)
  assume a: "optimise_value_function X (Adam LL_value) returns state_values w = Inr w'"
  then obtain loss w1 where
    b: "backward X loss (zero_grad (Adam LL_value) w) = Inr w1"
    and w': "w' = opt_step X (Adam LL_value) w1"
    by (auto simp: optimise_value_function_def split: sum.splits)
  from update_frame[OF b] w'
  show "params w' LL_policy = params w LL_policy"
    and "\<forall>m. m \<noteq> LL_value \<longrightarrow> params w' m = params w m \<and> adam_state w' m = adam_state w m"
    and "sim w' = sim w" and "torch_rng w' = torch_rng w"
    by simp_all
next
  assume a: "optimise_policy X (Adam LL_policy) log_probs returns state_values w = Inr w''"
  then obtain advantages w1 where
    b: "backward X (t_total X (map (\<lambda>(log_prob, advantage). t_mul X (t_neg X log_prob) advantage)
                                   (zip log_probs (map t_detach advantages))))
          (zero_grad (Adam LL_policy) w) = Inr w1"
    and w'': "w'' = opt_step X (Adam LL_policy) w1"
    by (rule optimise_policy_cases)
  note f = update_frame[OF b]
  from f w''
  show "params w'' LL_value = params w LL_value"
    and "\<forall>m. m \<noteq> LL_policy \<longrightarrow> params w'' m = params w m \<and> adam_state w'' m = adam_state w m"
    and "sim w'' = sim w" and "torch_rng w'' = torch_rng w"
    by simp_all
  assume g: "\<forall>t\<in>set log_probs. tgrad t LL_value = None"
  have "tgrad (t_total X (map (\<lambda>(log_prob, advantage). t_mul X (t_neg X log_prob) advantage)
                                   (zip log_probs (map t_detach advantages)))) LL_value = None"
    unfolding tgrad_t_total
  proof
    fix t
    assume "t \<in> set (map (\<lambda>(log_prob, advantage). t_mul X (t_neg X log_prob) advantage)
                          (zip log_probs (map t_detach advantages)))"
    then obtain lp adv where
      z: "(lp, adv) \<in> set (zip log_probs (map t_detach advantages))"
      and t: "t = t_mul X (t_neg X lp) adv"
      by auto
    from z have "lp \<in> set log_probs" by (rule set_zip_leftD)
    with g have l: "tgrad lp LL_value = None" by blast
    from z have "adv \<in> set (map t_detach advantages)" by (rule set_zip_rightD)
    then have "tgrad adv LL_value = None" by (auto simp: tgrad_t_detach)
    then show "tgrad t LL_value = None" unfolding t using l by (simp add: tgrad_policy_term)
  qed
  with f w'' show "grad w'' LL_value = grad w LL_value" by simp
qed


lemmas optimise_defs = optimise_value_function_def optimise_policy_def stack_squeeze_def
  mse_loss_def broadcast_def backward_def zero_grad_def opt_step_def t_total_def t_add_def
  t_mul_def t_sub_def t_neg_def t_div_const_def t_const_def t_detach_def

theorem optimise_no_cross_talk_witness:
  "optimise_value_function descent (Adam LL_value) [Fin 0]
       [\<lparr>tval = Fin 1, tgrad = (\<lambda>m. None)(LL_value \<mapsto> 1)\<rparr>] world1
     = Inr (world1\<lparr>params := (\<lambda>m. 1)(LL_value := - 1), grad := (\<lambda>m. None)(LL_value \<mapsto> 2)\<rparr>)
   \<and> optimise_policy descent (Adam LL_policy)
       [\<lparr>tval = Fin 0, tgrad = (\<lambda>m. None)(LL_policy \<mapsto> 1)\<rparr>] [Fin 0]
       [\<lparr>tval = Fin 1, tgrad = (\<lambda>m. None)(LL_value \<mapsto> 1)\<rparr>] world1
     = Inr (world1\<lparr>params := (\<lambda>m. 1)(LL_policy := 0), grad := (\<lambda>m. None)(LL_policy \<mapsto> 1)\<rparr>)
   \<and> params (world1\<lparr>params := (\<lambda>m. 1)(LL_value := - 1), grad := (\<lambda>m. None)(LL_value \<mapsto> 2)\<rparr>)
         LL_policy = params world1 LL_policy
   \<and> params (world1\<lparr>params := (\<lambda>m. 1)(LL_policy := 0), grad := (\<lambda>m. None)(LL_policy \<mapsto> 1)\<rparr>)
         LL_value = params world1 LL_value"
proof -
  let ?sv = "\<lparr>tval = Fin 1, tgrad = (\<lambda>m. None)(LL_value \<mapsto> 1 :: real)\<rparr>"
  let ?lp = "\<lparr>tval = Fin 0, tgrad = (\<lambda>m. None)(LL_policy \<mapsto> 1 :: real)\<rparr>"
  let ?w1 = "world1\<lparr>params := (\<lambda>m. 1)(LL_value := - 1), grad := (\<lambda>m. None)(LL_value \<mapsto> 2)\<rparr>"
  let ?w2 = "world1\<lparr>params := (\<lambda>m. 1)(LL_policy := 0), grad := (\<lambda>m. None)(LL_policy \<mapsto> 1)\<rparr>"
  have v: "optimise_value_function descent (Adam LL_value) [Fin 0] [?sv] world1 = Inr ?w1"
    by (simp add: optimise_defs descent_def world1_def fadd32_def fmul32_def fdiv32_def
        fun_eq_iff)
  have p: "optimise_policy descent (Adam LL_policy) [?lp] [Fin 0] [?sv] world1 = Inr ?w2"
    by (simp add: optimise_defs descent_def world1_def fadd32_def fmul32_def fdiv32_def
        fsub_def fun_eq_iff)
  show ?thesis
    using optimise_no_cross_talk[of descent "[Fin 0]" "[?sv]" world1 ?w1 "[?lp]" ?w2] v p
    by simp
qed


end
